theory Spec2Isabelle
  imports Complex_Main "HOL-Library.Word" "HOL-Library.Signed_Division"
begin

unbundle bit_operations_syntax

section \<open>BigInteger: data model\<close>

text \<open>
  The embedding follows \<^verbatim>\<open>src/BigInteger/biginteger.h\<close>.  A \<^verbatim>\<open>BigInteger\<close> owns a
  \<^verbatim>\<open>std::vector<int>\<close> of base-100 groups, least significant first, and a \<^verbatim>\<open>Sign\<close>.
  Group values are modelled by \<open>int\<close>: on the operands considered here every
  intermediate value of a group stays far below \<open>2 ^ 31\<close>.  C++ division and remainder
  truncate toward zero; they are \<open>sdiv\<close> and \<open>smod\<close>.  A call that does not return a
  value normally (an exception of the standard library, undefined behaviour, a loop
  that never ends) is the result \<open>None\<close>.
\<close>

datatype Sign = plus_sign | minus_sign

text \<open>\<^verbatim>\<open>Sign operator*(Sign x, Sign y)\<close>\<close>

definition sign_mul :: "Sign \<Rightarrow> Sign \<Rightarrow> Sign" where
  "sign_mul x y = (if x = y then plus_sign else minus_sign)"

record BigInteger =
  a_digits :: "int list"
  sign :: Sign

definition base :: int where
  "base = 100"

definition base_len :: nat where
  "base_len = 2"

text \<open>\<^verbatim>\<open>delete_trailing_zeroes(std::vector<int>&)\<close>: pop the back while it is 0 and more
  than one group is left.\<close>

function delete_trailing_zeroes :: "int list \<Rightarrow> int list" where
  "delete_trailing_zeroes x =
     (if length x > 1 \<and> last x = 0 then delete_trailing_zeroes (butlast x) else x)"
  by pat_completeness auto
termination
  by (relation "measure length") auto

declare delete_trailing_zeroes.simps [simp del]

text \<open>\<^verbatim>\<open>sgn(int x)\<close> is \<^verbatim>\<open>static_cast<Sign>((0 <= x) - (x < 0))\<close>: \<open>-1\<close> below zero and
  \<open>1\<close> otherwise.\<close>

definition sgn_of :: "int \<Rightarrow> Sign" where
  "sgn_of x = (if (of_bool (0 \<le> x) - of_bool (x < 0) :: int) = 1 then plus_sign else minus_sign)"

definition is_zero :: "BigInteger \<Rightarrow> bool" where
  "is_zero x = (length (a_digits x) = 1 \<and> a_digits x ! 0 = 0)"

definition is_one :: "BigInteger \<Rightarrow> bool" where
  "is_one x = (length (a_digits x) = 1 \<and> a_digits x ! 0 = 1)"

subsection \<open>Construction from a machine integer\<close>

text \<open>The \<^verbatim>\<open>do { a.push_back(x % base); x /= base; } while (x > 0);\<close> loop.\<close>

function int_groups :: "int \<Rightarrow> int list \<Rightarrow> int list" where
  "int_groups x acc =
     (let acc' = acc @ [x smod base]; x' = x sdiv base
      in if x' > 0 then int_groups x' acc' else acc')"
  by pat_completeness auto
termination
proof (relation "measure (\<lambda>(x, acc). nat x)")
  show "wf (measure (\<lambda>(x, acc). nat x))"
    by simp
next
  fix x :: int and acc acc' :: "int list" and x' :: int
  assume "x' = x sdiv base" and pos: "0 < x'"
  then have q: "0 < x sdiv 100"
    by (simp add: base_def)
  have "0 < x"
  proof (rule ccontr)
    assume "\<not> 0 < x"
    then have "x sdiv 100 \<le> 0"
      by (simp add: signed_divide_int_def sgn_if pos_imp_zdiv_nonneg_iff)
    with q show False by simp
  qed
  then have "x sdiv 100 = x div 100"
    by (simp add: signed_divide_int_def sgn_if)
  with \<open>0 < x\<close> \<open>x' = x sdiv base\<close> show "((x', acc'), (x, acc)) \<in> measure (\<lambda>(x, acc). nat x)"
    by (simp add: base_def)
qed

declare int_groups.simps [simp del]

text \<open>
  \<^verbatim>\<open>BigInteger(int x) : sign(sgn(x))\<close>.  The argument is a 32-bit \<^verbatim>\<open>int\<close>, read by
  \<open>sint\<close>.  \<^verbatim>\<open>abs(INT_MIN)\<close> is not representable: the behaviour of the call is
  undefined there, which the model writes as \<open>None\<close>.
\<close>

definition BigInteger_int :: "32 word \<Rightarrow> BigInteger option" where
  "BigInteger_int x =
     (if sint x = - (2 ^ 31) then None
      else Some \<lparr>a_digits = int_groups \<bar>sint x\<bar> [], sign = sgn_of (sint x)\<rparr>)"

subsection \<open>Comparison of magnitudes and equality\<close>

text \<open>\<^verbatim>\<open>less_abs\<close>: the sizes decide when they differ; otherwise the groups are compared
  from index \<open>size - 1\<close> down to 0 and the first difference decides.\<close>

fun less_abs_from :: "int list \<Rightarrow> int list \<Rightarrow> nat \<Rightarrow> bool" where
  "less_abs_from l r 0 = False"
| "less_abs_from l r (Suc i) = (if l ! i \<noteq> r ! i then l ! i < r ! i else less_abs_from l r i)"

definition less_abs :: "BigInteger \<Rightarrow> BigInteger \<Rightarrow> bool" where
  "less_abs lhs rhs =
     (if length (a_digits lhs) \<noteq> length (a_digits rhs)
      then length (a_digits lhs) < length (a_digits rhs)
      else less_abs_from (a_digits lhs) (a_digits rhs) (length (a_digits lhs)))"

text \<open>\<^verbatim>\<open>operator==\<close>: equal signs, equal sizes, and no index below the size where the
  groups differ.\<close>

definition equal_bi :: "BigInteger \<Rightarrow> BigInteger \<Rightarrow> bool" where
  "equal_bi lhs rhs =
     (if sign lhs \<noteq> sign rhs then False
      else if length (a_digits lhs) \<noteq> length (a_digits rhs) then False
      else list_all (\<lambda>i. a_digits lhs ! i = a_digits rhs ! i) [0..<length (a_digits lhs)])"

subsection \<open>Addition and subtraction\<close>

text \<open>\<^verbatim>\<open>std::vector::resize(n, v)\<close>\<close>

definition resize :: "int list \<Rightarrow> nat \<Rightarrow> int \<Rightarrow> int list" where
  "resize xs n v = take n xs @ replicate (n - length xs) v"

text \<open>
  \<^verbatim>\<open>abs_subtract_small_from_big(small, fl)\<close> works on the vector of \<^verbatim>\<open>*this\<close>.  The
  first loop runs over the indices of \<^verbatim>\<open>small\<close>, the second over \<^verbatim>\<open>len_big\<close> indices
  and carries the borrow in \<^verbatim>\<open>subtract\<close>.  Its two callers pass \<^verbatim>\<open>fl\<close> so that
  \<^verbatim>\<open>small.size() <= len_big\<close> (lemma \<open>less_abs_sizes\<close> below), so every index is in
  range.
\<close>

definition sub_step :: "int list \<Rightarrow> int \<Rightarrow> nat \<Rightarrow> int list \<Rightarrow> int list" where
  "sub_step small sign_fl i a = a[i := (a ! i - small ! i) * sign_fl]"

definition borrow_step :: "nat \<Rightarrow> int list \<times> int \<Rightarrow> int list \<times> int" where
  "borrow_step i = (\<lambda>(a, subtract).
     let v = a ! i - subtract
     in if v < 0 then (a[i := v + base], 1) else (a[i := v], 0))"

definition abs_subtract_small_from_big :: "int list \<Rightarrow> int list \<Rightarrow> bool \<Rightarrow> int list" where
  "abs_subtract_small_from_big a small fl =
     (let len_big = (if fl then length small else length a);
          a1 = resize a len_big 0;
          sign_fl = (if fl then - 1 else 1);
          a2 = fold (sub_step small sign_fl) [0..<length small] a1;
          (a3, subtract) = fold borrow_step [0..<len_big] (a2, 0)
      in delete_trailing_zeroes a3)"

text \<open>\<^verbatim>\<open>operator+=\<close>\<close>

definition add_step :: "int list \<Rightarrow> nat \<Rightarrow> int list \<times> int \<Rightarrow> int list \<times> int" where
  "add_step x i = (\<lambda>(a, add).
     let v = a ! i + (if i < length x then x ! i else 0) + add
     in (a[i := v smod base], v sdiv base))"

definition plus_assign :: "BigInteger \<Rightarrow> BigInteger \<Rightarrow> BigInteger" where
  "plus_assign this x =
     (let lhs_sign = sign this; rhs_sign = sign x
      in if lhs_sign = rhs_sign then
           (let len = max (length (a_digits this)) (length (a_digits x));
                a1 = resize (a_digits this) len 0;
                (a2, add) = fold (add_step (a_digits x)) [0..<len] (a1, 0);
                a3 = a2 @ [add]
            in \<lparr>a_digits = delete_trailing_zeroes a3, sign = lhs_sign\<rparr>)
         else
           (let t1 = (if less_abs this x
                      then \<lparr>a_digits = abs_subtract_small_from_big (a_digits this) (a_digits x) True,
                            sign = rhs_sign\<rparr>
                      else \<lparr>a_digits = abs_subtract_small_from_big (a_digits this) (a_digits x) False,
                            sign = lhs_sign\<rparr>);
                t2 = (if is_zero t1 then t1\<lparr>sign := plus_sign\<rparr> else t1)
            in t2\<lparr>a_digits := delete_trailing_zeroes (a_digits t2)\<rparr>))"

text \<open>\<^verbatim>\<open>operator-=\<close>: add a copy of \<^verbatim>\<open>x\<close> whose sign is multiplied by \<^verbatim>\<open>Sign::minus\<close>.\<close>

definition minus_assign :: "BigInteger \<Rightarrow> BigInteger \<Rightarrow> BigInteger" where
  "minus_assign this x = plus_assign this (x\<lparr>sign := sign_mul (sign x) minus_sign\<rparr>)"

text \<open>The binary operators copy the left operand and apply the compound assignment.\<close>

definition operator_plus :: "BigInteger \<Rightarrow> BigInteger \<Rightarrow> BigInteger" where
  "operator_plus lhs rhs = plus_assign lhs rhs"

definition operator_minus :: "BigInteger \<Rightarrow> BigInteger \<Rightarrow> BigInteger" where
  "operator_minus lhs rhs = minus_assign lhs rhs"




subsection \<open>Decimal strings\<close>

text \<open>
  A \<^verbatim>\<open>std::string\<close> is a list of \<open>char\<close>.  \<^verbatim>\<open>s[j] - '0'\<close> is computed on the character
  codes; the code of a character is taken as its byte value (for the characters of a
  decimal literal the signedness of \<^verbatim>\<open>char\<close> plays no role).
\<close>

definition char_minus_zero :: "char \<Rightarrow> int" where
  "char_minus_zero c = int (of_char c) - 48"

text \<open>\<^verbatim>\<open>char('0' + number)\<close>\<close>

definition digit_char :: "nat \<Rightarrow> char" where
  "digit_char d = char_of (48 + d)"

text \<open>\<^verbatim>\<open>reverse(std::string&)\<close> swaps the characters at \<^verbatim>\<open>curl\<close> and \<^verbatim>\<open>curr\<close> while
  \<^verbatim>\<open>curl < curr\<close>, which reverses the string.\<close>

definition reverse_str :: "string \<Rightarrow> string" where
  "reverse_str s = rev s"

text \<open>\<^verbatim>\<open>while (s.size() > 1 && s.back() == '0') s.pop_back();\<close>\<close>

function pop_back_zeroes :: "string \<Rightarrow> string" where
  "pop_back_zeroes s =
     (if length s > 1 \<and> last s = CHR ''0'' then pop_back_zeroes (butlast s) else s)"
  by pat_completeness auto
termination
  by (relation "measure length") auto

declare pop_back_zeroes.simps [simp del]

text \<open>\<^verbatim>\<open>delete_trailing_zeroes(std::string&)\<close>: reverse, pop the zero characters at the
  back, reverse again.  On a string this removes leading zeros.\<close>

definition delete_trailing_zeroes_str :: "string \<Rightarrow> string" where
  "delete_trailing_zeroes_str s = reverse_str (pop_back_zeroes (reverse_str s))"

text \<open>\<^verbatim>\<open>std::to_string(int)\<close>: the decimal digits, after a minus sign for a negative
  argument.\<close>

function to_string_nat :: "nat \<Rightarrow> string" where
  "to_string_nat n =
     (if n < 10 then [digit_char n] else to_string_nat (n div 10) @ [digit_char (n mod 10)])"
  by pat_completeness auto
termination
  by (relation "measure id") auto

declare to_string_nat.simps [simp del]

definition to_string :: "int \<Rightarrow> string" where
  "to_string x = (if x < 0 then CHR ''-'' # to_string_nat (nat (- x)) else to_string_nat (nat x))"

text \<open>
  \<^verbatim>\<open>number_to_string(int x)\<close> pads \<^verbatim>\<open>std::to_string(x)\<close> with
  \<^verbatim>\<open>base_len - result.size()\<close> zeros.  The count is a \<^verbatim>\<open>size_t\<close>: when the text of
  \<^verbatim>\<open>x\<close> is longer than \<^verbatim>\<open>base_len\<close> it wraps around to a length no string can have
  and the constructor of \<^verbatim>\<open>std::string\<close> throws.
\<close>

definition number_to_string :: "int \<Rightarrow> string option" where
  "number_to_string x =
     (let result = to_string x
      in if base_len < length result then None
         else Some (replicate (base_len - length result) CHR ''0'' @ result))"

text \<open>
  \<^verbatim>\<open>toString()\<close> appends the groups from index \<^verbatim>\<open>a.size() - 1\<close> down to 0.  On an
  empty vector the first index wraps around and the read is out of bounds.
\<close>

fun append_groups :: "int list \<Rightarrow> string option" where
  "append_groups [] = Some []"
| "append_groups (d # ds) =
     (case number_to_string d of
        None \<Rightarrow> None
      | Some t \<Rightarrow> (case append_groups ds of None \<Rightarrow> None | Some r \<Rightarrow> Some (t @ r)))"

definition toString :: "BigInteger \<Rightarrow> string option" where
  "toString this =
     (if a_digits this = [] then None
      else case append_groups (rev (a_digits this)) of
             None \<Rightarrow> None
           | Some res \<Rightarrow>
               (let res' = delete_trailing_zeroes_str res
                in Some (if sign this = minus_sign then CHR ''-'' # res' else res')))"

text \<open>
  \<^verbatim>\<open>BigInteger(const std::string& s)\<close>.  The indices \<^verbatim>\<open>cur\<close>, \<^verbatim>\<open>i\<close> and \<^verbatim>\<open>j\<close> are
  \<^verbatim>\<open>int\<close>; \<^verbatim>\<open>i\<close> goes below \<^verbatim>\<open>cur\<close> to end the loop.  \<^verbatim>\<open>s[0]\<close> of an empty string is
  the terminating null character.
\<close>

definition group_number :: "string \<Rightarrow> int \<Rightarrow> int \<Rightarrow> int" where
  "group_number s lo i =
     fold (\<lambda>j number. number * 10 + char_minus_zero (s ! j)) [nat lo..<nat (i + 1)] 0"

function parse_loop :: "string \<Rightarrow> int \<Rightarrow> int \<Rightarrow> int list \<Rightarrow> int list" where
  "parse_loop s cur i a =
     (if i \<ge> cur
      then parse_loop s cur (i - int base_len)
             (a @ [group_number s (max cur (i - int base_len + 1)) i])
      else a)"
  by pat_completeness auto
termination
  by (relation "measure (\<lambda>(s, cur, i, a). nat (i - cur + 1))") (auto simp: base_len_def)

declare parse_loop.simps [simp del]

definition BigInteger_string :: "string \<Rightarrow> BigInteger" where
  "BigInteger_string s =
     (let neg = (s \<noteq> [] \<and> s ! 0 = CHR ''-'');
          cur = (if neg then 1 else 0);
          a = parse_loop s cur (int (length s) - 1) []
      in \<lparr>a_digits = delete_trailing_zeroes a,
          sign = (if neg then minus_sign else plus_sign)\<rparr>)"

subsection \<open>Division\<close>

text \<open>\<^verbatim>\<open>div10\<close> divides the groups by 10 from the top group down, carrying the
  remainder in \<^verbatim>\<open>add\<close>.\<close>

definition div10_step :: "nat \<Rightarrow> int list \<times> int \<Rightarrow> int list \<times> int" where
  "div10_step i = (\<lambda>(x, add).
     let cur = x ! i + add * base
     in (x[i := cur sdiv 10], cur smod 10))"

definition div10 :: "BigInteger \<Rightarrow> BigInteger" where
  "div10 x =
     (let (x', add) = fold div10_step (rev [0..<length (a_digits x)]) (a_digits x, 0)
      in x\<lparr>a_digits := delete_trailing_zeroes x'\<rparr>)"

text \<open>The inner loop of \<^verbatim>\<open>operator/=\<close>: \<^verbatim>\<open>number\<close> counts the subtractions of
  \<^verbatim>\<open>sub\<close>, at most 9; the first argument is \<open>9 - number\<close>.\<close>

fun subtract_loop :: "nat \<Rightarrow> nat \<Rightarrow> BigInteger \<Rightarrow> BigInteger \<Rightarrow> BigInteger \<times> nat" where
  "subtract_loop 0 number this sub = (this, number)"
| "subtract_loop (Suc k) number this sub =
     (if less_abs this sub then (this, number)
      else subtract_loop k (Suc number) (minus_assign this sub) sub)"

text \<open>The outer loop runs for \<^verbatim>\<open>degree\<close>, \<^verbatim>\<open>degree - 1\<close>, \<open>\<dots>\<close>, 0; the first argument
  is the number of iterations left.\<close>

fun divide_loop :: "nat \<Rightarrow> BigInteger \<Rightarrow> BigInteger \<Rightarrow> string \<Rightarrow> BigInteger \<times> BigInteger \<times> string" where
  "divide_loop 0 this sub result = (this, sub, result)"
| "divide_loop (Suc n) this sub result =
     (let (this', number) = subtract_loop 9 0 this sub
      in divide_loop n this' (div10 sub) (result @ [digit_char number]))"

text \<open>\<^verbatim>\<open>operator/=\<close>.  The only call that can fail is \<^verbatim>\<open>x_abs.toString()\<close>.\<close>

definition divide_assign :: "BigInteger \<Rightarrow> BigInteger \<Rightarrow> BigInteger option" where
  "divide_assign this x =
     (if length (a_digits x) > length (a_digits this)
      then Some \<lparr>a_digits = [0], sign = plus_sign\<rparr>
      else case toString (x\<lparr>sign := plus_sign\<rparr>) of
             None \<Rightarrow> None
           | Some divisor \<Rightarrow>
               (let result = (if sign_mul (sign this) (sign x) = minus_sign then [CHR ''-''] else []);
                    this1 = this\<lparr>sign := plus_sign\<rparr>;
                    degree = (length (a_digits this) - length (a_digits x) + 1) * base_len;
                    sub = BigInteger_string (divisor @ replicate degree CHR ''0'');
                    (this2, sub', result') = divide_loop (degree + 1) this1 sub result;
                    this3 = BigInteger_string result';
                    this4 = this3\<lparr>a_digits := delete_trailing_zeroes (a_digits this3)\<rparr>
                in Some (if is_zero this4 then this4\<lparr>sign := plus_sign\<rparr> else this4)))"

definition operator_div :: "BigInteger \<Rightarrow> BigInteger \<Rightarrow> BigInteger option" where
  "operator_div lhs rhs = divide_assign lhs rhs"


subsection \<open>Multiplication by the fast Fourier transform\<close>

text \<open>
  \<^verbatim>\<open>std::complex<double>\<close> is modelled by \<open>complex\<close>, the operations on \<^verbatim>\<open>double\<close> by
  the exact operations on real numbers: the embedding describes the transform without
  rounding error.  This is the regime the specification sets for the operands
  (section 4.4, the numeric-stability note): the convolution sums stay within the
  tolerance of double precision, so that \<^verbatim>\<open>static_cast<int>(fa[i].real() + 0.5)\<close>
  returns the exact sum.  The index variables are \<^verbatim>\<open>int\<close>s that never go below zero;
  they are natural numbers here.  The coefficients \<^verbatim>\<open>res[i]\<close> and the carry \<^verbatim>\<open>add\<close> are
  \<^verbatim>\<open>int\<close>s of 32 bits: the sum \<^verbatim>\<open>res[i] += add\<close> is taken in two's complement and wraps
  around when it leaves the range of \<^verbatim>\<open>int\<close>.
\<close>

text \<open>\<^verbatim>\<open>for (int s = n; j ^= s >>= 1, ~j & s;);\<close>: halve \<^verbatim>\<open>s\<close>, flip that bit of
  \<^verbatim>\<open>j\<close>, and go on while the flipped bit is now clear.\<close>

function reverse_increment :: "nat \<Rightarrow> nat \<Rightarrow> nat" where
  "reverse_increment s j =
     (let s' = drop_bit 1 s; j' = j XOR s'
      in if (NOT (int j')) AND (int s') \<noteq> 0
         then reverse_increment s' j' else j')"
  by pat_completeness auto
termination
proof (relation "measure (\<lambda>(s, j). s)")
  show "wf (measure (\<lambda>(s, j). s))"
    by simp
next
  fix s j s' j' :: nat
  assume s': "s' = drop_bit 1 s"
    and nz: "(NOT (int j')) AND (int s') \<noteq> 0"
  have "s' \<noteq> 0"
  proof
    assume "s' = 0"
    then have "(NOT (int j')) AND (int s') = 0"
      by simp
    with nz show False
      by simp
  qed
  with s' have "s' < s"
    by (simp add: drop_bit_eq_div)
  then show "((s', j'), (s, j)) \<in> measure (\<lambda>(s, j). s)"
    by simp
qed

declare reverse_increment.simps [simp del]

text \<open>The first loop of \<^verbatim>\<open>FFT\<close>: \<^verbatim>\<open>j\<close> lives across the iterations of \<^verbatim>\<open>i\<close>.\<close>

definition permute_step :: "nat \<Rightarrow> nat \<Rightarrow> complex list \<times> nat \<Rightarrow> complex list \<times> nat" where
  "permute_step n i = (\<lambda>(a, j).
     let j' = reverse_increment n j
     in (if i < j' then a[i := a ! j', j' := a ! i] else a, j'))"

text \<open>The innermost loop, over \<^verbatim>\<open>j < len / 2\<close>, with the running power \<^verbatim>\<open>w\<close>.\<close>

definition butterfly_step ::
    "complex \<Rightarrow> nat \<Rightarrow> nat \<Rightarrow> nat \<Rightarrow> complex list \<times> complex \<Rightarrow> complex list \<times> complex" where
  "butterfly_step wlen len i j = (\<lambda>(a, w).
     let u = a ! (i + j); v = a ! (i + j + len div 2) * w
     in (a[i + j := u + v, i + j + len div 2 := u - v], w * wlen))"

text \<open>The loop \<^verbatim>\<open>for (int i = 0; i < n; i += len)\<close> visits the multiples of \<^verbatim>\<open>len\<close>
  below \<^verbatim>\<open>n\<close>.\<close>

definition block_starts :: "nat \<Rightarrow> nat \<Rightarrow> nat list" where
  "block_starts n len = map (\<lambda>k. k * len) [0..<(n + len - 1) div len]"

definition fft_stage :: "bool \<Rightarrow> nat \<Rightarrow> nat \<Rightarrow> complex list \<Rightarrow> complex list" where
  "fft_stage invert n len a =
     (let angle = 2 * pi / real len * (if invert then - 1 else 1);
          wlen = Complex (cos angle) (sin angle)
      in fold (\<lambda>i a. fst (fold (butterfly_step wlen len i) [0..<len div 2] (a, 1)))
           (block_starts n len) a)"

text \<open>\<^verbatim>\<open>for (int len = 2; len <= n; len <<= 1)\<close>; \<^verbatim>\<open>len\<close> starts at 2 and is never 0.\<close>

function fft_stages :: "bool \<Rightarrow> nat \<Rightarrow> nat \<Rightarrow> complex list \<Rightarrow> complex list" where
  "fft_stages invert n len a =
     (if 0 < len \<and> len \<le> n then fft_stages invert n (push_bit 1 len) (fft_stage invert n len a)
      else a)"
  by pat_completeness auto
termination
  by (relation "measure (\<lambda>(invert, n, len, a). n + 1 - len)") (auto simp: push_bit_eq_mult)

declare fft_stages.simps [simp del]

text \<open>
  \<^verbatim>\<open>FFT(a, invert)\<close>.  It is only called on vectors whose size is a power of two, where
  every index \<^verbatim>\<open>i + j + len / 2\<close> is in range.
\<close>

definition FFT :: "complex list \<Rightarrow> bool \<Rightarrow> complex list" where
  "FFT a invert =
     (let n = length a;
          a1 = fst (fold (permute_step n) [1..<n - 1] (a, 0));
          a2 = fft_stages invert n 2 a1
      in if invert then map (\<lambda>z. z / of_nat n) a2 else a2)"

text \<open>\<^verbatim>\<open>while (n < std::max(a.size(), x.a.size())) n <<= 1;\<close>, started at 1.\<close>

function grow_size :: "nat \<Rightarrow> nat \<Rightarrow> nat" where
  "grow_size n m = (if 0 < n \<and> n < m then grow_size (push_bit 1 n) m else n)"
  by pat_completeness auto
termination
  by (relation "measure (\<lambda>(n, m). m - n)") (auto simp: push_bit_eq_mult)

declare grow_size.simps [simp del]

text \<open>The value an \<^verbatim>\<open>int\<close> of 32 bits holds after an addition whose exact result is
  \<open>v\<close>: \<open>v\<close> itself when it is in the range of \<^verbatim>\<open>int\<close>, and \<open>v\<close> reduced modulo \<open>2 ^ 32\<close>
  into that range otherwise.\<close>

definition int_wrap :: "int \<Rightarrow> int" where
  "int_wrap v = sint (word_of_int v :: 32 word)"

text \<open>\<^verbatim>\<open>static_cast<int>(double)\<close> discards the fractional part.  For a value that
  does not fit an \<^verbatim>\<open>int\<close> the conversion is undefined; the model returns \<^verbatim>\<open>INT_MIN\<close>
  there, the result of the conversion instruction of x86-64.\<close>

definition static_cast_int :: "real \<Rightarrow> int" where
  "static_cast_int r =
     (let t = (if 0 \<le> r then \<lfloor>r\<rfloor> else \<lceil>r\<rceil>)
      in if - (2 ^ 31) \<le> t \<and> t < 2 ^ 31 then t else - (2 ^ 31))"

text \<open>\<^verbatim>\<open>res[i] += add; add = res[i] / base; res[i] %= base;\<close>\<close>

definition carry_step :: "nat \<Rightarrow> int list \<times> int \<Rightarrow> int list \<times> int" where
  "carry_step i = (\<lambda>(res, add).
     let v = int_wrap (res ! i + add)
     in (res[i := v smod base], v sdiv base))"

definition resize_complex :: "complex list \<Rightarrow> nat \<Rightarrow> complex list" where
  "resize_complex xs n = take n xs @ replicate (n - length xs) 0"

text \<open>\<^verbatim>\<open>operator*=\<close>\<close>

definition times_assign :: "BigInteger \<Rightarrow> BigInteger \<Rightarrow> BigInteger" where
  "times_assign this x =
     (let fa = map complex_of_int (a_digits this);
          fb = map complex_of_int (a_digits x);
          n = push_bit 1 (grow_size 1 (max (length (a_digits this)) (length (a_digits x))));
          fa1 = FFT (resize_complex fa n) False;
          fb1 = FFT (resize_complex fb n) False;
          fa2 = map (\<lambda>i. fa1 ! i * fb1 ! i) [0..<n];
          fa3 = FFT fa2 True;
          res = map (\<lambda>i. static_cast_int (Re (fa3 ! i) + 0.5)) [0..<n];
          (res', add) = fold carry_step [0..<n] (res, 0);
          res'' = delete_trailing_zeroes res';
          this' = \<lparr>a_digits = res'', sign = sign_mul (sign this) (sign x)\<rparr>
      in if is_zero this' then this'\<lparr>sign := plus_sign\<rparr> else this')"

definition operator_times :: "BigInteger \<Rightarrow> BigInteger \<Rightarrow> BigInteger" where
  "operator_times lhs rhs = times_assign lhs rhs"

text \<open>\<^verbatim>\<open>operator%=\<close>: divide a copy, multiply it back, subtract.\<close>

definition mod_assign :: "BigInteger \<Rightarrow> BigInteger \<Rightarrow> BigInteger option" where
  "mod_assign this x =
     (case divide_assign this x of
        None \<Rightarrow> None
      | Some copy \<Rightarrow>
          (let copy' = times_assign copy x;
               this' = minus_assign this copy'
           in Some (if is_zero this' then this'\<lparr>sign := plus_sign\<rparr> else this')))"

definition operator_mod :: "BigInteger \<Rightarrow> BigInteger \<Rightarrow> BigInteger option" where
  "operator_mod lhs rhs = mod_assign lhs rhs"

text \<open>
  \<^verbatim>\<open>gcd\<close>: \<^verbatim>\<open>while (b) { a %= b; std::swap(a, b); }\<close>.  The conversion to \<^verbatim>\<open>bool\<close> is
  \<^verbatim>\<open>!is_zero()\<close>.  Nothing in the loop bounds the number of iterations, so the
  function is partial: \<open>None\<close> also stands for a loop that does not end.
\<close>

partial_function (option) gcd_bi :: "BigInteger \<Rightarrow> BigInteger \<Rightarrow> BigInteger option" where
  "gcd_bi a b =
     (if \<not> is_zero b
      then (case mod_assign a b of None \<Rightarrow> None | Some a' \<Rightarrow> gcd_bi b a')
      else Some a)"


section \<open>Rational\<close>

text \<open>
  A \<^verbatim>\<open>Rational\<close> owns two \<^verbatim>\<open>BigInteger\<close>s and a sign of its own.  The compound
  assignments take their operand by reference.  \<open>plus_assign_r this x\<close> and its
  siblings describe the call with an operand \<open>x\<close> that is another object than
  \<open>this\<close>, as in the binary operators, which work on a copy of the left operand.  The
  calls \<^verbatim>\<open>a += a\<close>, \<^verbatim>\<open>a -= a\<close> and \<^verbatim>\<open>a /= a\<close>, where the operand is the object itself,
  read fields that the call has already written; they are described by
  \<open>plus_assign_r_self\<close>, \<open>minus_assign_r_self\<close> and \<open>divide_assign_r_self\<close> below.
\<close>

record Rational =
  numerator :: BigInteger
  denominator :: BigInteger
  r_sign :: Sign

text \<open>\<^verbatim>\<open>normalize()\<close>\<close>

definition normalize :: "Rational \<Rightarrow> Rational option" where
  "normalize this =
     (let sign1 = sign_mul (r_sign this) (sign (numerator this));
          num1 = (numerator this)\<lparr>sign := plus_sign\<rparr>;
          sign2 = (if is_zero num1 then plus_sign else sign1)
      in case gcd_bi num1 (denominator this) of
           None \<Rightarrow> None
         | Some g \<Rightarrow>
             if is_one g
             then Some \<lparr>numerator = num1, denominator = denominator this, r_sign = sign2\<rparr>
             else (case divide_assign num1 g of
                     None \<Rightarrow> None
                   | Some num2 \<Rightarrow>
                       (case divide_assign (denominator this) g of
                          None \<Rightarrow> None
                        | Some den2 \<Rightarrow>
                            Some \<lparr>numerator = num2, denominator = den2, r_sign = sign2\<rparr>)))"

text \<open>The constructors \<^verbatim>\<open>Rational()\<close>, \<^verbatim>\<open>Rational(int)\<close> and
  \<^verbatim>\<open>Rational(const BigInteger&)\<close>.\<close>

definition Rational_bi :: "BigInteger \<Rightarrow> Rational" where
  "Rational_bi x =
     \<lparr>numerator = x\<lparr>sign := plus_sign\<rparr>,
      denominator = \<lparr>a_digits = int_groups 1 [], sign = sgn_of 1\<rparr>,
      r_sign = sign x\<rparr>"

definition Rational_int :: "32 word \<Rightarrow> Rational option" where
  "Rational_int x = (case BigInteger_int x of None \<Rightarrow> None | Some n \<Rightarrow> Some (Rational_bi n))"

definition Rational_default :: "Rational" where
  "Rational_default =
     \<lparr>numerator = \<lparr>a_digits = int_groups 0 [], sign = sgn_of 0\<rparr>,
      denominator = \<lparr>a_digits = int_groups 1 [], sign = sgn_of 1\<rparr>,
      r_sign = plus_sign\<rparr>"

text \<open>\<^verbatim>\<open>operator*=\<close>\<close>

definition times_assign_r :: "Rational \<Rightarrow> Rational \<Rightarrow> Rational option" where
  "times_assign_r this x =
     normalize
       \<lparr>numerator = times_assign (numerator this) (numerator x),
        denominator = times_assign (denominator this) (denominator x),
        r_sign = sign_mul (r_sign this) (r_sign x)\<rparr>"

text \<open>\<^verbatim>\<open>operator+=\<close> and \<^verbatim>\<open>operator-=\<close>: the sign of the rational is moved into the
  numerator first.\<close>

definition plus_assign_r :: "Rational \<Rightarrow> Rational \<Rightarrow> Rational option" where
  "plus_assign_r this x =
     (let num0 = (numerator this)\<lparr>sign := r_sign this\<rparr>;
          num1 = times_assign num0 (denominator x);
          num2 = (if r_sign x = plus_sign
                  then plus_assign num1 (operator_times (numerator x) (denominator this))
                  else minus_assign num1 (operator_times (numerator x) (denominator this)));
          den1 = times_assign (denominator this) (denominator x)
      in normalize \<lparr>numerator = num2, denominator = den1, r_sign = plus_sign\<rparr>)"

definition minus_assign_r :: "Rational \<Rightarrow> Rational \<Rightarrow> Rational option" where
  "minus_assign_r this x =
     (let num0 = (numerator this)\<lparr>sign := r_sign this\<rparr>;
          num1 = times_assign num0 (denominator x);
          num2 = (if r_sign x = plus_sign
                  then minus_assign num1 (operator_times (numerator x) (denominator this))
                  else plus_assign num1 (operator_times (numerator x) (denominator this)));
          den1 = times_assign (denominator this) (denominator x)
      in normalize \<lparr>numerator = num2, denominator = den1, r_sign = plus_sign\<rparr>)"

text \<open>\<^verbatim>\<open>operator/=\<close>\<close>

definition divide_assign_r :: "Rational \<Rightarrow> Rational \<Rightarrow> Rational option" where
  "divide_assign_r this x =
     normalize
       \<lparr>numerator = times_assign (numerator this) (denominator x),
        denominator = times_assign (denominator this) (numerator x),
        r_sign = sign_mul (r_sign this) (r_sign x)\<rparr>"

text \<open>
  The same operators called with the object itself as operand.  In \<^verbatim>\<open>a += a\<close> and
  \<^verbatim>\<open>a -= a\<close> the test \<^verbatim>\<open>x.sign == Sign::plus\<close> reads the sign after \<^verbatim>\<open>sign = Sign::plus\<close>
  has been executed, \<^verbatim>\<open>x.numerator\<close> is the numerator that has already been multiplied by
  the denominator, and \<^verbatim>\<open>denominator *= x.denominator\<close> squares the denominator.  In
  \<^verbatim>\<open>a /= a\<close> the denominator is multiplied by the numerator that has already been
  multiplied by the denominator.  \<^verbatim>\<open>BigInteger::operator*=\<close> copies both vectors into
  \<^verbatim>\<open>fa\<close> and \<^verbatim>\<open>fb\<close> and reads \<^verbatim>\<open>x.sign\<close> before it writes anything, so that a
  \<^verbatim>\<open>BigInteger\<close> multiplied by itself is \<open>times_assign d d\<close>; for the same reason
  \<^verbatim>\<open>a *= a\<close> on a \<^verbatim>\<open>Rational\<close> is \<open>times_assign_r a a\<close>.
\<close>

definition plus_assign_r_self :: "Rational \<Rightarrow> Rational option" where
  "plus_assign_r_self this =
     (let num0 = (numerator this)\<lparr>sign := r_sign this\<rparr>;
          num1 = times_assign num0 (denominator this);
          num2 = plus_assign num1 (operator_times num1 (denominator this));
          den1 = times_assign (denominator this) (denominator this)
      in normalize \<lparr>numerator = num2, denominator = den1, r_sign = plus_sign\<rparr>)"

definition minus_assign_r_self :: "Rational \<Rightarrow> Rational option" where
  "minus_assign_r_self this =
     (let num0 = (numerator this)\<lparr>sign := r_sign this\<rparr>;
          num1 = times_assign num0 (denominator this);
          num2 = minus_assign num1 (operator_times num1 (denominator this));
          den1 = times_assign (denominator this) (denominator this)
      in normalize \<lparr>numerator = num2, denominator = den1, r_sign = plus_sign\<rparr>)"

definition divide_assign_r_self :: "Rational \<Rightarrow> Rational option" where
  "divide_assign_r_self this =
     (let num1 = times_assign (numerator this) (denominator this);
          den1 = times_assign (denominator this) num1
      in normalize \<lparr>numerator = num1, denominator = den1,
                     r_sign = sign_mul (r_sign this) (r_sign this)\<rparr>)"

text \<open>Unary minus\<close>

definition operator_neg_r :: "Rational \<Rightarrow> Rational option" where
  "operator_neg_r this = normalize (this\<lparr>r_sign := sign_mul (r_sign this) minus_sign\<rparr>)"

text \<open>
  \<^verbatim>\<open>asDecimal(precision)\<close>.  \<^verbatim>\<open>pos\<close> is the larger of 0 and the \<^verbatim>\<open>int\<close> value of
  \<^verbatim>\<open>decimal.size() - precision\<close>; \<^verbatim>\<open>substr(pos, precision)\<close> is the text from \<^verbatim>\<open>pos\<close>
  on, at most \<^verbatim>\<open>precision\<close> characters.
\<close>

definition asDecimal :: "Rational \<Rightarrow> nat \<Rightarrow> string option" where
  "asDecimal this precision =
     (let result = operator_times (numerator this)
                     (BigInteger_string (CHR ''1'' # replicate precision CHR ''0''))
      in case divide_assign result (denominator this) of
           None \<Rightarrow> None
         | Some result' \<Rightarrow>
             (case toString result' of
                None \<Rightarrow> None
              | Some decimal \<Rightarrow>
                  (let pos = nat (max 0 (int (length decimal) - int precision))
                   in Some ((if r_sign this = minus_sign then [CHR ''-''] else [])
                            @ (if pos = 0 then [CHR ''0''] else [])
                            @ take pos decimal @ [CHR ''.'']
                            @ replicate (precision - (length decimal - pos)) CHR ''0''
                            @ take precision (drop pos decimal)))))"


section \<open>Value and canonical form\<close>

text \<open>The integer a digit vector stands for, and the invariants I1 and I2 of the
  specification together with the range of the groups.\<close>

fun val_digits :: "int list \<Rightarrow> int" where
  "val_digits [] = 0"
| "val_digits (d # ds) = d + 100 * val_digits ds"

definition value_of :: "BigInteger \<Rightarrow> int" where
  "value_of x = (if sign x = minus_sign then - val_digits (a_digits x) else val_digits (a_digits x))"

definition in_range :: "int list \<Rightarrow> bool" where
  "in_range ds = list_all (\<lambda>d. 0 \<le> d \<and> d < 100) ds"

definition digits_ok :: "int list \<Rightarrow> bool" where
  "digits_ok ds = (ds \<noteq> [] \<and> in_range ds \<and> (length ds > 1 \<longrightarrow> last ds \<noteq> 0))"

definition canonical :: "BigInteger \<Rightarrow> bool" where
  "canonical x = (digits_ok (a_digits x) \<and> (is_zero x \<longrightarrow> sign x = plus_sign))"

text \<open>Decimal digit strings and the number a digit string denotes.\<close>

definition digit_string :: "string \<Rightarrow> bool" where
  "digit_string s = list_all (\<lambda>c. 48 \<le> (of_char c :: nat) \<and> (of_char c :: nat) \<le> 57) s"

definition dec_val :: "string \<Rightarrow> int" where
  "dec_val s = fold (\<lambda>c v. v * 10 + char_minus_zero c) s 0"


subsection \<open>The discrete Fourier transform\<close>

text \<open>
  The transform the routine \<^verbatim>\<open>FFT\<close> is compared with: \<open>tw \<sigma> L e\<close> is the \<open>e\<close>-th power
  of the primitive \<open>L\<close>-th root of unity, taken in the direction \<open>\<sigma>\<close> (1 forward, -1
  inverse); \<open>brev k\<close> reverses the \<open>k\<close> low bits of an index; \<open>stage_fun\<close> is what one
  stage of butterflies of length \<open>len\<close> makes of the entry at \<open>p\<close>; \<open>stage_inv\<close> says that
  after the stages up to length \<open>2 ^ t\<close> every block holds the transform of a
  subsequence of the input; \<open>conv a b m\<close> is the \<open>m\<close>-th coefficient of the product of
  the two digit polynomials.
\<close>

definition tw :: "real \<Rightarrow> nat \<Rightarrow> nat \<Rightarrow> complex" where
  "tw \<sigma> L e = cis (\<sigma> * (2 * pi * real e / real L))"

definition DFT :: "real \<Rightarrow> nat \<Rightarrow> (nat \<Rightarrow> complex) \<Rightarrow> nat \<Rightarrow> complex" where
  "DFT \<sigma> L y m = (\<Sum>j<L. y j * tw \<sigma> L (j * m))"

definition stage_fun :: "complex \<Rightarrow> nat \<Rightarrow> complex list \<Rightarrow> nat \<Rightarrow> complex" where
  "stage_fun w len a p =
     (if p mod len < len div 2 then a ! p + a ! (p + len div 2) * w ^ (p mod len)
      else a ! (p - len div 2) - a ! p * w ^ (p mod len - len div 2))"

fun brev :: "nat \<Rightarrow> nat \<Rightarrow> nat" where
  "brev 0 i = 0"
| "brev (Suc k) i = 2 ^ k * (i mod 2) + brev k (i div 2)"

definition stage_inv :: "real \<Rightarrow> nat \<Rightarrow> (nat \<Rightarrow> complex) \<Rightarrow> nat \<Rightarrow> complex list \<Rightarrow> bool" where
  "stage_inv \<sigma> k x t a \<longleftrightarrow>
     length a = 2 ^ k
     \<and> (\<forall>b m. b < 2 ^ (k - t) \<and> m < 2 ^ t \<longrightarrow>
           a ! (b * 2 ^ t + m) = DFT \<sigma> (2 ^ t) (\<lambda>j. x (j * 2 ^ (k - t) + brev (k - t) b)) m)"

definition conv :: "int list \<Rightarrow> int list \<Rightarrow> nat \<Rightarrow> int" where
  "conv a b m = (\<Sum>i<length a. \<Sum>j<length b. if i + j = m then a ! i * b ! j else 0)"

subsection \<open>The invariant of Rational\<close>

text \<open>
  The invariant I3 of the specification: numerator and denominator are canonical and of
  positive sign, the denominator is not zero, the two have greatest common divisor 1,
  and a zero numerator comes with the denominator 1 and the positive sign of the
  Rational.
\<close>

definition I3 :: "Rational \<Rightarrow> bool" where
  "I3 r \<longleftrightarrow>
     canonical (numerator r) \<and> canonical (denominator r)
     \<and> sign (numerator r) = plus_sign \<and> sign (denominator r) = plus_sign
     \<and> \<not> is_zero (denominator r)
     \<and> gcd (value_of (numerator r)) (value_of (denominator r)) = 1
     \<and> (is_zero (numerator r) \<longrightarrow> is_one (denominator r) \<and> r_sign r = plus_sign)"


text \<open>A bound on the number of groups of numerator and denominator.\<close>

definition groups_le :: "nat \<Rightarrow> Rational \<Rightarrow> bool" where
  "groups_le k r \<longleftrightarrow>
     length (a_digits (numerator r)) \<le> k \<and> length (a_digits (denominator r)) \<le> k"


section \<open>Basic facts\<close>

lemma sdiv_nonneg_100: "0 \<le> x \<Longrightarrow> (x :: int) sdiv 100 = x div 100"
  by (simp add: signed_divide_int_def sgn_if)

lemma smod_nonneg_100: "0 \<le> x \<Longrightarrow> (x :: int) smod 100 = x mod 100"
  by (simp add: signed_modulo_int_def sgn_if)

lemma val_digits_append: "val_digits (xs @ ys) = val_digits xs + 100 ^ length xs * val_digits ys"
  by (induction xs) (simp_all add: algebra_simps)

lemma int_groups_more:
  "0 < x sdiv base \<Longrightarrow> int_groups x acc = int_groups (x sdiv base) (acc @ [x smod base])"
  by (subst int_groups.simps) (simp add: Let_def)

lemma int_groups_stop:
  "\<not> 0 < x sdiv base \<Longrightarrow> int_groups x acc = acc @ [x smod base]"
  by (subst int_groups.simps) (simp add: Let_def)

lemma int_groups_shape:
  "0 \<le> x \<Longrightarrow> \<exists>ds. int_groups x acc = acc @ ds \<and> ds \<noteq> [] \<and> list_all (\<lambda>d. 0 \<le> d \<and> d < 100) ds
                    \<and> val_digits ds = x \<and> (0 < x \<longrightarrow> last ds \<noteq> 0)"
proof (induction x acc rule: int_groups.induct)
  case (1 x acc)
  have d: "x smod base = x mod 100" and q: "x sdiv base = x div 100"
    using 1(2) by (simp_all add: base_def sdiv_nonneg_100 smod_nonneg_100)
  show ?case
  proof (cases "0 < x div 100")
    case True
    from "1.IH" [OF refl refl] True q
    obtain ds where ds: "int_groups (x div 100) (acc @ [x mod 100]) = (acc @ [x mod 100]) @ ds"
      "ds \<noteq> []" "list_all (\<lambda>d. 0 \<le> d \<and> d < 100) ds" "val_digits ds = x div 100"
      "last ds \<noteq> 0"
      using d by auto
    have "int_groups x acc = int_groups (x div 100) (acc @ [x mod 100])"
      using True int_groups_more [of x acc] by (simp add: d q)
    then have "int_groups x acc = acc @ ((x mod 100) # ds)"
      using ds(1) by simp
    moreover have "val_digits ((x mod 100) # ds) = x"
      using ds(4) by simp
    moreover have "last ((x mod 100) # ds) \<noteq> 0"
      using ds(2,5) by simp
    ultimately show ?thesis
      using ds(2,3) by auto
  next
    case False
    then have small: "x < 100"
      using 1(2) by (simp add: div_pos_pos_trivial pos_imp_zdiv_pos_iff)
    have "int_groups x acc = acc @ [x mod 100]"
      using False int_groups_stop [of x acc] by (simp add: d q)
    then show ?thesis
      using small 1(2) by auto
  qed
qed

lemma sint_32_range: "- (2 ^ 31) \<le> sint (x :: 32 word) \<and> sint x < 2 ^ 31"
  using sint_ge [of x] sint_lt [of x] by simp

lemma in_range_simps [simp]:
  "in_range []"
  "in_range (d # ds) \<longleftrightarrow> 0 \<le> d \<and> d < 100 \<and> in_range ds"
  "in_range (xs @ ys) \<longleftrightarrow> in_range xs \<and> in_range ys"
  by (auto simp: in_range_def)

lemma in_range_nth: "in_range xs \<Longrightarrow> i < length xs \<Longrightarrow> 0 \<le> xs ! i \<and> xs ! i < 100"
  by (simp add: in_range_def list_all_length)

lemma in_range_take: "in_range xs \<Longrightarrow> in_range (take n xs)"
  by (metis append_take_drop_id in_range_simps(3))

lemma in_range_drop: "in_range xs \<Longrightarrow> in_range (drop n xs)"
  by (metis append_take_drop_id in_range_simps(3))

lemma in_range_replicate [simp]: "in_range (replicate n 0)"
  by (induction n) simp_all

lemma val_digits_replicate [simp]: "val_digits (replicate n 0) = 0"
  by (induction n) simp_all

lemma val_digits_bounds: "in_range xs \<Longrightarrow> 0 \<le> val_digits xs \<and> val_digits xs < 100 ^ length xs"
  by (induction xs) auto

lemma val_digits_lower:
  "in_range xs \<Longrightarrow> xs \<noteq> [] \<Longrightarrow> last xs \<noteq> 0 \<Longrightarrow> 100 ^ (length xs - 1) \<le> val_digits xs"
proof (induction xs rule: rev_induct)
  case Nil
  then show ?case by simp
next
  case (snoc d xs)
  then have "1 \<le> d" and "0 \<le> val_digits xs"
    using val_digits_bounds [of xs] by auto
  then have m: "(100::int) ^ length xs \<le> 100 ^ length xs * d"
    using mult_left_mono [of 1 d "100 ^ length xs"] by simp
  have e: "(100::int) ^ (length (xs @ [d]) - 1) = 100 ^ length xs"
    by simp
  have v: "val_digits (xs @ [d]) = val_digits xs + 100 ^ length xs * d"
    by (simp add: val_digits_append)
  show ?case
    unfolding e v using m \<open>0 \<le> val_digits xs\<close> by linarith
qed

subsection \<open>Stripping zero groups\<close>

lemma dtz_Nil [simp]: "delete_trailing_zeroes [] = []"
  by (subst delete_trailing_zeroes.simps) simp

lemma dtz_single [simp]: "delete_trailing_zeroes [d] = [d]"
  by (subst delete_trailing_zeroes.simps) simp

lemma dtz_snoc_zero: "xs \<noteq> [] \<Longrightarrow> delete_trailing_zeroes (xs @ [0]) = delete_trailing_zeroes xs"
  by (subst delete_trailing_zeroes.simps) (cases xs, simp_all)

lemma dtz_snoc_nonzero: "d \<noteq> 0 \<Longrightarrow> delete_trailing_zeroes (xs @ [d]) = xs @ [d]"
  by (subst delete_trailing_zeroes.simps) simp

lemma dtz_val [simp]: "val_digits (delete_trailing_zeroes xs) = val_digits xs"
proof (induction xs rule: rev_induct)
  case Nil
  then show ?case by simp
next
  case (snoc d xs)
  show ?case
  proof (cases "d = 0 \<and> xs \<noteq> []")
    case True
    then show ?thesis using snoc by (simp add: dtz_snoc_zero val_digits_append)
  next
    case False
    then show ?thesis
      by (cases "d = 0") (simp_all add: dtz_snoc_nonzero)
  qed
qed

lemma dtz_digits_ok: "xs \<noteq> [] \<Longrightarrow> in_range xs \<Longrightarrow> digits_ok (delete_trailing_zeroes xs)"
proof (induction xs rule: rev_induct)
  case Nil
  then show ?case by simp
next
  case (snoc d xs)
  show ?case
  proof (cases "d = 0 \<and> xs \<noteq> []")
    case True
    then show ?thesis using snoc by (simp add: dtz_snoc_zero)
  next
    case False
    then show ?thesis
      using snoc(3) by (cases "d = 0") (simp_all add: dtz_snoc_nonzero digits_ok_def)
  qed
qed

lemma dtz_id: "digits_ok xs \<Longrightarrow> delete_trailing_zeroes xs = xs"
  by (subst delete_trailing_zeroes.simps) (auto simp: digits_ok_def)

lemma dtz_not_Nil: "xs \<noteq> [] \<Longrightarrow> delete_trailing_zeroes xs \<noteq> []"
proof (induction xs rule: rev_induct)
  case Nil
  then show ?case by simp
next
  case (snoc d xs)
  then show ?case
    by (cases "d = 0 \<and> xs \<noteq> []") (auto simp: dtz_snoc_zero dtz_snoc_nonzero)
qed

lemma dtz_top: "1 < length (delete_trailing_zeroes xs) \<Longrightarrow> last (delete_trailing_zeroes xs) \<noteq> 0"
proof (induction xs rule: rev_induct)
  case Nil
  then show ?case by simp
next
  case (snoc d xs)
  then show ?case
    by (cases "d = 0 \<and> xs \<noteq> []") (auto simp: dtz_snoc_zero dtz_snoc_nonzero)
qed

subsection \<open>A canonical vector is determined by its value\<close>

lemma val_digits_inj_same_length:
  "length xs = length ys \<Longrightarrow> in_range xs \<Longrightarrow> in_range ys \<Longrightarrow> val_digits xs = val_digits ys
   \<Longrightarrow> xs = ys"
proof (induction xs ys rule: list_induct2)
  case Nil
  then show ?case by simp
next
  case (Cons x xs y ys)
  from Cons.prems have r: "0 \<le> x" "x < 100" "0 \<le> y" "y < 100"
    and e: "x + 100 * val_digits xs = y + 100 * val_digits ys"
    by simp_all
  from e have "(x + 100 * val_digits xs) mod 100 = (y + 100 * val_digits ys) mod 100"
    by simp
  with r have "x = y" by simp
  with e have "val_digits xs = val_digits ys" by simp
  with Cons \<open>x = y\<close> show ?case by simp
qed

lemma digits_ok_length_less:
  assumes "digits_ok xs" "digits_ok ys" "length xs < length ys"
  shows "val_digits xs < val_digits ys"
proof -
  have "val_digits xs < 100 ^ length xs"
    using assms(1) val_digits_bounds by (simp add: digits_ok_def)
  also have "(100::int) ^ length xs \<le> 100 ^ (length ys - 1)"
    using assms(3) by (intro power_increasing) simp_all
  also have "\<dots> \<le> val_digits ys"
  proof -
    have "1 < length ys"
      using assms by (cases xs) (auto simp: digits_ok_def)
    then show ?thesis
      using assms(2) by (intro val_digits_lower) (auto simp: digits_ok_def)
  qed
  finally show ?thesis .
qed

lemma digits_ok_inj:
  assumes "digits_ok xs" "digits_ok ys" "val_digits xs = val_digits ys"
  shows "xs = ys"
proof -
  have "length xs = length ys"
    using digits_ok_length_less [OF assms(1,2)] digits_ok_length_less [OF assms(2,1)] assms(3)
    by (cases "length xs < length ys"; cases "length ys < length xs") simp_all
  then show ?thesis
    using assms by (intro val_digits_inj_same_length) (simp_all add: digits_ok_def)
qed

lemma digits_ok_zero: "digits_ok xs \<Longrightarrow> val_digits xs = 0 \<longleftrightarrow> xs = [0]"
proof
  assume "digits_ok xs" "val_digits xs = 0"
  moreover have "digits_ok [0]" by (simp add: digits_ok_def)
  ultimately show "xs = [0]" by (intro digits_ok_inj) simp_all
qed simp

lemma is_zero_iff: "is_zero x \<longleftrightarrow> a_digits x = [0]"
  by (cases "a_digits x") (auto simp: is_zero_def)

lemma canonical_inj:
  assumes "canonical x" "canonical y" "value_of x = value_of y"
  shows "x = (y :: BigInteger)"
proof -
  have nx: "0 \<le> val_digits (a_digits x)" and ny: "0 \<le> val_digits (a_digits y)"
    using assms(1,2) val_digits_bounds by (simp_all add: canonical_def digits_ok_def)
  have zx: "val_digits (a_digits x) = 0 \<longrightarrow> sign x = plus_sign"
    and zy: "val_digits (a_digits y) = 0 \<longrightarrow> sign y = plus_sign"
    using assms(1,2) digits_ok_zero by (auto simp: canonical_def is_zero_iff)
  have v: "val_digits (a_digits x) = val_digits (a_digits y)"
    using assms(3) nx ny zx zy by (auto simp: value_of_def split: if_splits)
  then have d: "a_digits x = a_digits y"
    using assms(1,2) by (intro digits_ok_inj) (simp_all add: canonical_def)
  have "sign x = sign y"
    using assms(3) v zx zy nx ny
    by (cases "sign x"; cases "sign y") (auto simp: value_of_def split: if_splits)
  with d show ?thesis by simp
qed

lemma equal_bi_iff: "equal_bi x y \<longleftrightarrow> a_digits x = a_digits y \<and> sign x = sign y"
proof -
  have e: "a_digits x = a_digits y \<longleftrightarrow>
        length (a_digits x) = length (a_digits y)
        \<and> (\<forall>i < length (a_digits x). a_digits x ! i = a_digits y ! i)"
    by (rule list_eq_iff_nth_eq)
  show ?thesis
    unfolding e by (auto simp: equal_bi_def list_all_iff)
qed

subsection \<open>Comparison of magnitudes\<close>

lemma less_abs_from_take:
  "n \<le> length l \<Longrightarrow> n \<le> length r \<Longrightarrow> in_range l \<Longrightarrow> in_range r
   \<Longrightarrow> less_abs_from l r n \<longleftrightarrow> val_digits (take n l) < val_digits (take n r)"
proof (induction n)
  case 0
  then show ?case by simp
next
  case (Suc n)
  have tl: "take (Suc n) l = take n l @ [l ! n]" and tr: "take (Suc n) r = take n r @ [r ! n]"
    using Suc.prems by (simp_all add: take_Suc_conv_app_nth)
  have bl: "0 \<le> val_digits (take n l)" "val_digits (take n l) < 100 ^ n"
    using val_digits_bounds [OF in_range_take [OF Suc.prems(3), of n]] Suc.prems by simp_all
  have br: "0 \<le> val_digits (take n r)" "val_digits (take n r) < 100 ^ n"
    using val_digits_bounds [OF in_range_take [OF Suc.prems(4), of n]] Suc.prems by simp_all
  show ?case
  proof (cases "l ! n = r ! n")
    case True
    then show ?thesis
      using Suc by (simp add: tl tr val_digits_append min_def)
  next
    case False
    have "l ! n < r ! n \<longleftrightarrow>
          val_digits (take n l) + 100 ^ n * (l ! n) < val_digits (take n r) + 100 ^ n * (r ! n)"
    proof
      assume "l ! n < r ! n"
      then have "l ! n + 1 \<le> r ! n" by simp
      then have "(100::int) ^ n * (l ! n + 1) \<le> 100 ^ n * (r ! n)"
        by (intro mult_left_mono) simp_all
      with bl br show "val_digits (take n l) + 100 ^ n * (l ! n) < val_digits (take n r) + 100 ^ n * (r ! n)"
        by (simp add: algebra_simps)
    next
      assume lt: "val_digits (take n l) + 100 ^ n * (l ! n) < val_digits (take n r) + 100 ^ n * (r ! n)"
      show "l ! n < r ! n"
      proof (rule ccontr)
        assume "\<not> l ! n < r ! n"
        with False have "r ! n + 1 \<le> l ! n" by simp
        then have "(100::int) ^ n * (r ! n + 1) \<le> 100 ^ n * (l ! n)"
          by (intro mult_left_mono) simp_all
        with bl br lt show False
          by (simp add: algebra_simps)
      qed
    qed
    with False show ?thesis
      using Suc.prems by (simp add: tl tr val_digits_append min_def)
  qed
qed

lemma less_abs_iff:
  assumes "digits_ok (a_digits x)" "digits_ok (a_digits y)"
  shows "less_abs x y \<longleftrightarrow> val_digits (a_digits x) < val_digits (a_digits y)"
proof (cases "length (a_digits x) = length (a_digits y)")
  case True
  then show ?thesis
    using assms less_abs_from_take [of "length (a_digits x)" "a_digits x" "a_digits y"]
    by (simp add: less_abs_def digits_ok_def)
next
  case False
  then show ?thesis
    using digits_ok_length_less [OF assms] digits_ok_length_less [OF assms(2,1)]
    by (cases "length (a_digits x) < length (a_digits y)") (auto simp: less_abs_def)
qed

lemma less_abs_sizes: "\<not> less_abs x y \<Longrightarrow> length (a_digits y) \<le> length (a_digits x)"
  by (auto simp: less_abs_def split: if_splits)

lemma less_abs_sizes': "less_abs x y \<Longrightarrow> length (a_digits x) \<le> length (a_digits y)"
  by (auto simp: less_abs_def split: if_splits)

subsection \<open>The carry loop of addition\<close>

lemma nth_of_drop_eq: "drop n xs = drop n ys \<Longrightarrow> n < length xs \<Longrightarrow> xs ! n = ys ! n"
  by (metis Cons_nth_drop_Suc drop_eq_Nil2 linorder_not_le list.inject)

lemma take_Suc_update: "n < length xs \<Longrightarrow> take (Suc n) (xs[n := v]) = take n xs @ [v]"
  by (simp add: take_Suc_conv_app_nth)

lemma add_loop:
  assumes "n \<le> length a0" "in_range a0" "in_range x"
  shows "\<exists>a' c. fold (add_step x) [0..<n] (a0, 0) = (a', c) \<and> length a' = length a0
           \<and> drop n a' = drop n a0 \<and> in_range (take n a') \<and> (c = 0 \<or> c = 1)
           \<and> val_digits (take n a') + 100 ^ n * c = val_digits (take n a0) + val_digits (take n x)"
  using assms(1)
proof (induction n)
  case 0
  then show ?case by simp
next
  case (Suc n)
  then obtain a' c where ih: "fold (add_step x) [0..<n] (a0, 0) = (a', c)" "length a' = length a0"
      "drop n a' = drop n a0" "in_range (take n a')" "c = 0 \<or> c = 1"
      "val_digits (take n a') + 100 ^ n * c = val_digits (take n a0) + val_digits (take n x)"
    by auto
  have n: "n < length a0" "n < length a'"
    using Suc.prems ih(2) by simp_all
  define xn where "xn = (if n < length x then x ! n else 0)"
  define v where "v = a' ! n + xn + c"
  have an: "a' ! n = a0 ! n"
    using ih(3) n by (intro nth_of_drop_eq) simp_all
  have ra: "0 \<le> a0 ! n" "a0 ! n < 100"
    using in_range_nth [OF assms(2) n(1)] by simp_all
  have rx: "0 \<le> xn" "xn < 100"
    using in_range_nth [OF assms(3), of n] by (auto simp: xn_def)
  have rv: "0 \<le> v" "v < 200"
    using ra rx ih(5) an by (auto simp: v_def)
  have sm: "v smod base = v mod 100" and sd: "v sdiv base = v div 100"
    using rv by (simp_all add: base_def sdiv_nonneg_100 smod_nonneg_100)
  have "add_step x n (a', c) = (a'[n := v smod base], v sdiv base)"
    by (simp add: add_step_def Let_def v_def xn_def)
  then have step: "fold (add_step x) [0..<Suc n] (a0, 0) = (a'[n := v mod 100], v div 100)"
    by (simp add: ih(1) sm sd)
  have tk: "take (Suc n) (a'[n := v mod 100]) = take n a' @ [v mod 100]"
    using n by (simp add: take_Suc_update)
  have dr: "drop (Suc n) (a'[n := v mod 100]) = drop (Suc n) a0"
    using ih(3) by (metis drop_Suc drop_update_cancel lessI tl_drop)
  have c': "v div 100 = 0 \<or> v div 100 = 1"
    using rv by auto
  have ta: "val_digits (take (Suc n) a0) = val_digits (take n a0) + 100 ^ n * (a0 ! n)"
    using n by (simp add: take_Suc_conv_app_nth val_digits_append min_def)
  have tx: "val_digits (take (Suc n) x) = val_digits (take n x) + 100 ^ n * xn"
    by (cases "n < length x") (simp_all add: take_Suc_conv_app_nth val_digits_append min_def xn_def)
  have ln: "length (take n a') = n"
    using n by simp
  have md: "100 ^ n * (v mod 100) + 100 ^ n * (100 * (v div 100)) = 100 ^ n * v"
    unfolding distrib_left [symmetric] by simp
  have "val_digits (take n a' @ [v mod 100]) + 100 ^ Suc n * (v div 100)
        = val_digits (take n a') + (100 ^ n * (v mod 100) + 100 ^ n * (100 * (v div 100)))"
    unfolding val_digits_append ln by simp
  also have "\<dots> = val_digits (take n a') + 100 ^ n * v"
    by (simp only: md)
  also have "\<dots> = val_digits (take (Suc n) a0) + val_digits (take (Suc n) x)"
    using ih(6) by (simp add: ta tx v_def an algebra_simps)
  finally have vv: "val_digits (take (Suc n) (a'[n := v mod 100])) + 100 ^ Suc n * (v div 100)
        = val_digits (take (Suc n) a0) + val_digits (take (Suc n) x)"
    by (simp only: tk)
  have ir: "in_range (take (Suc n) (a'[n := v mod 100]))"
    using ih(4) by (simp add: tk)
  show ?case
    using step ih(2) dr ir c' vv by (intro exI [of _ "a'[n := v mod 100]"] exI [of _ "v div 100"]) simp
qed

lemma resize_grow: "length xs \<le> n \<Longrightarrow> resize xs n 0 = xs @ replicate (n - length xs) 0"
  by (simp add: resize_def)

lemma resize_props:
  assumes "length xs \<le> n" "in_range xs"
  shows "length (resize xs n 0) = n" "in_range (resize xs n 0)"
    "val_digits (resize xs n 0) = val_digits xs"
  using assms by (simp_all add: resize_grow val_digits_append)

lemma add_same_sign:
  assumes "in_range a0" "in_range x"
  defines "len \<equiv> max (length a0) (length x)"
  shows "\<exists>a2 c. fold (add_step x) [0..<len] (resize a0 len 0, 0) = (a2, c)
           \<and> in_range (a2 @ [c]) \<and> val_digits (a2 @ [c]) = val_digits a0 + val_digits x"
proof -
  have l: "length a0 \<le> len" "length x \<le> len"
    by (simp_all add: len_def)
  note rs = resize_props [OF l(1) assms(1)]
  obtain a2 c where r: "fold (add_step x) [0..<len] (resize a0 len 0, 0) = (a2, c)"
      "length a2 = len" "in_range (take len a2)" "c = 0 \<or> c = 1"
      "val_digits (take len a2) + 100 ^ len * c
       = val_digits (take len (resize a0 len 0)) + val_digits (take len x)"
    using add_loop [of len "resize a0 len 0" x] rs assms(2) by auto
  have "in_range (a2 @ [c])"
    using r(2,3,4) by auto
  moreover have "val_digits (a2 @ [c]) = val_digits a0 + val_digits x"
    using r(2,5) rs l by (simp add: val_digits_append)
  ultimately show ?thesis
    using r(1) by blast
qed

subsection \<open>The two loops of subtraction\<close>

lemma sub_loop:
  "n \<le> length a1 \<Longrightarrow> n \<le> length small \<Longrightarrow>
   fold (sub_step small s) [0..<n] a1
   = map (\<lambda>(p, q). (p - q) * s) (zip (take n a1) (take n small)) @ drop n a1"
proof (induction n)
  case 0
  then show ?case by simp
next
  case (Suc n)
  let ?f = "\<lambda>(p, q). (p - q) * s"
  let ?front = "map ?f (zip (take n a1) (take n small))"
  have n: "n < length a1" "n < length small"
    using Suc.prems by simp_all
  have lf: "length ?front = n"
    using n by simp
  have ih: "fold (sub_step small s) [0..<n] a1 = ?front @ drop n a1"
    using Suc by simp
  have dn: "drop n a1 = a1 ! n # drop (Suc n) a1"
    using n by (simp add: Cons_nth_drop_Suc)
  have "fold (sub_step small s) [0..<Suc n] a1 = sub_step small s n (?front @ drop n a1)"
    by (simp add: ih)
  also have "\<dots> = ?front @ ((a1 ! n - small ! n) * s # drop (Suc n) a1)"
    unfolding sub_step_def dn using lf by (simp add: nth_append list_update_append)
  also have "\<dots> = map ?f (zip (take (Suc n) a1) (take (Suc n) small)) @ drop (Suc n) a1"
    using n by (simp add: take_Suc_conv_app_nth)
  finally show ?case .
qed

lemma val_map_diff:
  "length xs = length ys \<Longrightarrow>
   val_digits (map (\<lambda>(p, q). (p - q) * s) (zip xs ys)) = s * (val_digits xs - val_digits ys)"
  by (induction xs ys rule: list_induct2) (simp_all add: algebra_simps)

lemma wide_map_diff:
  "in_range xs \<Longrightarrow> in_range ys \<Longrightarrow> s = 1 \<or> s = - 1 \<Longrightarrow>
   list_all (\<lambda>d. - 100 < d \<and> d < 100) (map (\<lambda>(p, q). (p - q) * s) (zip xs ys))"
proof (induction xs arbitrary: ys)
  case Nil
  then show ?case by simp
next
  case (Cons x xs)
  then show ?case by (cases ys) auto
qed

lemma in_range_wide: "in_range xs \<Longrightarrow> list_all (\<lambda>d. - 100 < d \<and> d < 100) xs"
  by (induction xs) auto

lemma borrow_loop:
  assumes "n \<le> length a2" "list_all (\<lambda>d. - 100 < d \<and> d < 100) a2"
  shows "\<exists>a' c. fold borrow_step [0..<n] (a2, 0) = (a', c) \<and> length a' = length a2
           \<and> drop n a' = drop n a2 \<and> in_range (take n a') \<and> (c = 0 \<or> c = 1)
           \<and> val_digits (take n a') - 100 ^ n * c = val_digits (take n a2)"
  using assms(1)
proof (induction n)
  case 0
  then show ?case by simp
next
  case (Suc n)
  then obtain a' c where ih: "fold borrow_step [0..<n] (a2, 0) = (a', c)" "length a' = length a2"
      "drop n a' = drop n a2" "in_range (take n a')" "c = 0 \<or> c = 1"
      "val_digits (take n a') - 100 ^ n * c = val_digits (take n a2)"
    by auto
  have n: "n < length a2" "n < length a'"
    using Suc.prems ih(2) by simp_all
  define v where "v = a' ! n - c"
  define w where "w = (if v < 0 then v + 100 else v)"
  define c' :: int where "c' = (if v < 0 then 1 else 0)"
  have an: "a' ! n = a2 ! n"
    using ih(3) n by (intro nth_of_drop_eq) simp_all
  have ra: "- 100 < a2 ! n" "a2 ! n < 100"
    using assms(2) n(1) by (simp_all add: list_all_length)
  have rw: "0 \<le> w" "w < 100" and wv: "w - 100 * c' = v" and cc: "c' = 0 \<or> c' = 1"
    using ra ih(5) an by (auto simp: v_def w_def c'_def)
  have "borrow_step n (a', c) = (a'[n := w], c')"
    by (simp add: borrow_step_def Let_def v_def w_def c'_def base_def)
  then have step: "fold borrow_step [0..<Suc n] (a2, 0) = (a'[n := w], c')"
    by (simp add: ih(1))
  have tk: "take (Suc n) (a'[n := w]) = take n a' @ [w]"
    using n by (simp add: take_Suc_update)
  have dr: "drop (Suc n) (a'[n := w]) = drop (Suc n) a2"
    using ih(3) by (metis drop_Suc drop_update_cancel lessI tl_drop)
  have ta: "val_digits (take (Suc n) a2) = val_digits (take n a2) + 100 ^ n * (a2 ! n)"
    using n by (simp add: take_Suc_conv_app_nth val_digits_append min_def)
  have ln: "length (take n a') = n"
    using n by simp
  have "val_digits (take n a' @ [w]) - 100 ^ Suc n * c'
        = val_digits (take n a') + 100 ^ n * (w - 100 * c')"
    unfolding val_digits_append ln by (simp add: algebra_simps)
  also have "\<dots> = val_digits (take (Suc n) a2)"
    using ih(6) unfolding wv ta by (simp add: v_def an algebra_simps)
  finally have vv: "val_digits (take (Suc n) (a'[n := w])) - 100 ^ Suc n * c'
        = val_digits (take (Suc n) a2)"
    by (simp only: tk)
  have ir: "in_range (take (Suc n) (a'[n := w]))"
    using ih(4) rw by (simp add: tk)
  show ?case
    using step ih(2) dr ir cc vv by (intro exI [of _ "a'[n := w]"] exI [of _ c']) simp
qed

lemma abs_subtract_correct:
  assumes "in_range a0" "in_range small"
    and "if fl then length a0 \<le> length small \<and> small \<noteq> [] \<and> val_digits a0 \<le> val_digits small
         else length small \<le> length a0 \<and> a0 \<noteq> [] \<and> val_digits small \<le> val_digits a0"
  shows "digits_ok (abs_subtract_small_from_big a0 small fl)"
    and "val_digits (abs_subtract_small_from_big a0 small fl) = \<bar>val_digits a0 - val_digits small\<bar>"
proof -
  define len_big where "len_big = (if fl then length small else length a0)"
  define a1 where "a1 = resize a0 len_big 0"
  define s :: int where "s = (if fl then - 1 else 1)"
  define a2 where "a2 = fold (sub_step small s) [0..<length small] a1"
  have lb: "length a0 \<le> len_big" "length small \<le> len_big" "0 < len_big"
    using assms(3) by (auto simp: len_big_def split: if_splits)
  have a1: "length a1 = len_big" "in_range a1" "val_digits a1 = val_digits a0"
    unfolding a1_def using resize_props [OF lb(1) assms(1)] by simp_all
  have a2: "a2 = map (\<lambda>(p, q). (p - q) * s) (zip (take (length small) a1) small)
                 @ drop (length small) a1"
    unfolding a2_def using sub_loop [of "length small" a1 small s] lb(2) a1(1) by simp
  have l2: "length a2 = len_big"
    using lb(2) a1(1) by (simp add: a2)
  have ss: "s = 1 \<or> s = - 1"
    by (simp add: s_def)
  have w2: "list_all (\<lambda>d. - 100 < d \<and> d < 100) a2"
    unfolding a2 using wide_map_diff [OF in_range_take [OF a1(2)] assms(2) ss]
      in_range_wide [OF in_range_drop [OF a1(2)]] by simp
  have e1: "val_digits a2 = s * (val_digits (take (length small) a1) - val_digits small)
          + 100 ^ length small * val_digits (drop (length small) a1)"
    unfolding a2 using lb(2) a1(1) by (simp add: val_digits_append val_map_diff)
  have e2: "val_digits a1 = val_digits (take (length small) a1)
          + 100 ^ length small * val_digits (drop (length small) a1)"
    using val_digits_append [of "take (length small) a1" "drop (length small) a1"] lb(2) a1(1)
    by simp
  have v2: "val_digits a2 = \<bar>val_digits a0 - val_digits small\<bar>"
  proof (cases fl)
    case True
    then have "s = - 1" and "val_digits a0 \<le> val_digits small"
      using assms(3) by (simp_all add: s_def)
    moreover have "val_digits a2 = s * (val_digits a1 - val_digits small)"
      using e1 True a1(1) by (simp add: len_big_def)
    ultimately show ?thesis
      using a1(3) by simp
  next
    case False
    then have "s = 1" and "val_digits small \<le> val_digits a0"
      using assms(3) by (simp_all add: s_def)
    moreover have "val_digits a2 = val_digits a1 - val_digits small"
      using e1 e2 \<open>s = 1\<close> by simp
    ultimately show ?thesis
      using a1(3) by simp
  qed
  obtain a3 c where b: "fold borrow_step [0..<len_big] (a2, 0) = (a3, c)" "length a3 = len_big"
      "in_range (take len_big a3)" "c = 0 \<or> c = 1"
      "val_digits (take len_big a3) - 100 ^ len_big * c = val_digits (take len_big a2)"
    using borrow_loop [of len_big a2] w2 l2 by auto
  have r3: "in_range a3" and v3: "val_digits a3 - 100 ^ len_big * c = val_digits a2"
    using b(2,3,5) l2 by simp_all
  have "c = 0"
  proof (rule ccontr)
    assume "c \<noteq> 0"
    with b(4) have "c = 1" by simp
    moreover have "val_digits a3 < 100 ^ len_big"
      using val_digits_bounds [OF r3] b(2) by simp
    ultimately show False
      using v3 v2 by simp
  qed
  with v3 have v3': "val_digits a3 = val_digits a2" by simp
  have res: "abs_subtract_small_from_big a0 small fl = delete_trailing_zeroes a3"
    using b(1) unfolding abs_subtract_small_from_big_def Let_def
    by (simp add: len_big_def [symmetric] a1_def [symmetric] s_def [symmetric] a2_def [symmetric])
  have "a3 \<noteq> []"
    using b(2) lb(3) by auto
  then show "digits_ok (abs_subtract_small_from_big a0 small fl)"
    using r3 by (simp add: res dtz_digits_ok)
  show "val_digits (abs_subtract_small_from_big a0 small fl) = \<bar>val_digits a0 - val_digits small\<bar>"
    by (simp add: res v3' v2)
qed

subsection \<open>Addition and subtraction compute the sum and the difference\<close>

lemma sign_cases: "s = plus_sign \<or> s = minus_sign"
  by (cases s) simp_all

lemma plus_assign_same:
  assumes "sign t = sign x" "in_range (a_digits t)" "in_range (a_digits x)"
  shows "digits_ok (a_digits (plus_assign t x))"
    and "val_digits (a_digits (plus_assign t x)) = val_digits (a_digits t) + val_digits (a_digits x)"
    and "sign (plus_assign t x) = sign t"
proof -
  define len where "len = max (length (a_digits t)) (length (a_digits x))"
  obtain a2 c where r: "fold (add_step (a_digits x)) [0..<len] (resize (a_digits t) len 0, 0) = (a2, c)"
      "in_range (a2 @ [c])" "val_digits (a2 @ [c]) = val_digits (a_digits t) + val_digits (a_digits x)"
    using add_same_sign [OF assms(2,3)] unfolding len_def by blast
  have res: "plus_assign t x = \<lparr>a_digits = delete_trailing_zeroes (a2 @ [c]), sign = sign t\<rparr>"
    using assms(1) r(1) unfolding plus_assign_def Let_def len_def by simp
  show "digits_ok (a_digits (plus_assign t x))"
    using r(2) by (simp add: res dtz_digits_ok)
  show "val_digits (a_digits (plus_assign t x)) = val_digits (a_digits t) + val_digits (a_digits x)"
    using r(3) by (simp add: res)
  show "sign (plus_assign t x) = sign t"
    by (simp add: res)
qed

lemma plus_assign_diff:
  assumes "sign t \<noteq> sign x" "digits_ok (a_digits t)" "digits_ok (a_digits x)"
  shows "digits_ok (a_digits (plus_assign t x))"
    and "val_digits (a_digits (plus_assign t x)) = \<bar>val_digits (a_digits t) - val_digits (a_digits x)\<bar>"
    and "sign (plus_assign t x) =
           (if val_digits (a_digits t) < val_digits (a_digits x) then sign x
            else if val_digits (a_digits t) = val_digits (a_digits x) then plus_sign else sign t)"
proof -
  let ?vt = "val_digits (a_digits t)" and ?vx = "val_digits (a_digits x)"
  define fl where "fl = less_abs t x"
  define d where "d = abs_subtract_small_from_big (a_digits t) (a_digits x) fl"
  have fl: "fl \<longleftrightarrow> ?vt < ?vx"
    unfolding fl_def by (rule less_abs_iff [OF assms(2,3)])
  have pre: "if fl then length (a_digits t) \<le> length (a_digits x) \<and> a_digits x \<noteq> [] \<and> ?vt \<le> ?vx
         else length (a_digits x) \<le> length (a_digits t) \<and> a_digits t \<noteq> [] \<and> ?vx \<le> ?vt"
    using fl less_abs_sizes [of t x] less_abs_sizes' [of t x] assms(2,3)
    by (auto simp: fl_def digits_ok_def)
  have ok: "digits_ok d" and v: "val_digits d = \<bar>?vt - ?vx\<bar>"
    unfolding d_def using abs_subtract_correct [OF _ _ pre] assms(2,3)
    by (simp_all add: digits_ok_def)
  define t1 where "t1 = \<lparr>a_digits = d, sign = (if fl then sign x else sign t)\<rparr>"
  define t2 where "t2 = (if is_zero t1 then t1\<lparr>sign := plus_sign\<rparr> else t1)"
  have res: "plus_assign t x = t2\<lparr>a_digits := delete_trailing_zeroes (a_digits t2)\<rparr>"
    using assms(1) unfolding plus_assign_def Let_def t2_def t1_def d_def fl_def
    by (cases "less_abs t x") simp_all
  have d2: "a_digits t2 = d"
    by (simp add: t2_def t1_def)
  have z: "is_zero t1 \<longleftrightarrow> ?vt = ?vx"
    using digits_ok_zero [OF ok] v by (simp add: is_zero_iff t1_def)
  show "digits_ok (a_digits (plus_assign t x))"
    using ok by (simp add: res d2 dtz_id)
  show "val_digits (a_digits (plus_assign t x)) = \<bar>?vt - ?vx\<bar>"
    using v by (simp add: res d2)
  show "sign (plus_assign t x) =
           (if ?vt < ?vx then sign x else if ?vt = ?vx then plus_sign else sign t)"
    using z fl by (simp add: res t2_def t1_def)
qed

lemma plus_assign_correct:
  assumes "canonical t" "digits_ok (a_digits x)"
  shows "canonical (plus_assign t x)"
    and "value_of (plus_assign t x) = value_of t + value_of x"
proof -
  let ?vt = "val_digits (a_digits t)" and ?vx = "val_digits (a_digits x)"
  have dt: "digits_ok (a_digits t)" and zt: "?vt = 0 \<longrightarrow> sign t = plus_sign"
    using assms(1) digits_ok_zero [of "a_digits t"] by (auto simp: canonical_def is_zero_iff)
  have nn: "0 \<le> ?vt" "0 \<le> ?vx"
    using dt assms(2) val_digits_bounds by (simp_all add: digits_ok_def)
  show "canonical (plus_assign t x)"
  proof (cases "sign t = sign x")
    case True
    note r = plus_assign_same [OF True]
    have ok: "digits_ok (a_digits (plus_assign t x))"
      using r(1) dt assms(2) by (simp add: digits_ok_def)
    have "val_digits (a_digits (plus_assign t x)) = ?vt + ?vx"
      using r(2) dt assms(2) by (simp add: digits_ok_def)
    then have "is_zero (plus_assign t x) \<longrightarrow> ?vt = 0"
      using nn by (auto simp: is_zero_iff)
    moreover have "sign (plus_assign t x) = sign t"
      using r(3) dt assms(2) by (simp add: digits_ok_def)
    ultimately show ?thesis
      using ok zt by (simp add: canonical_def)
  next
    case False
    note r = plus_assign_diff [OF False dt assms(2)]
    have "is_zero (plus_assign t x) \<longrightarrow> ?vt = ?vx"
      using r(2) by (auto simp: is_zero_iff)
    then show ?thesis
      using r(1,3) by (auto simp: canonical_def)
  qed
  show "value_of (plus_assign t x) = value_of t + value_of x"
  proof (cases "sign t = sign x")
    case True
    note r = plus_assign_same [OF True]
    have "val_digits (a_digits (plus_assign t x)) = ?vt + ?vx" "sign (plus_assign t x) = sign t"
      using r(2,3) dt assms(2) by (simp_all add: digits_ok_def)
    then show ?thesis
      using True by (simp add: value_of_def)
  next
    case False
    note r = plus_assign_diff [OF False dt assms(2)]
    show ?thesis
      using r(2,3) False sign_cases [of "sign t"] sign_cases [of "sign x"]
      by (auto simp: value_of_def)
  qed
qed

lemma minus_assign_correct:
  assumes "canonical t" "digits_ok (a_digits x)"
  shows "canonical (minus_assign t x)"
    and "value_of (minus_assign t x) = value_of t - value_of x"
proof -
  let ?c = "x\<lparr>sign := sign_mul (sign x) minus_sign\<rparr>"
  have d: "digits_ok (a_digits ?c)"
    using assms(2) by simp
  have v: "value_of ?c = - value_of x"
    using sign_cases [of "sign x"] by (auto simp: value_of_def sign_mul_def)
  show "canonical (minus_assign t x)"
    unfolding minus_assign_def by (rule plus_assign_correct(1) [OF assms(1) d])
  show "value_of (minus_assign t x) = value_of t - value_of x"
    unfolding minus_assign_def using plus_assign_correct(2) [OF assms(1) d] v by simp
qed

lemma canonicalD: "canonical x \<Longrightarrow> digits_ok (a_digits x)"
  by (simp add: canonical_def)

subsection \<open>Digit strings\<close>

lemma dec_val_Nil [simp]: "dec_val [] = 0"
  by (simp add: dec_val_def)

lemma dec_val_snoc: "dec_val (s @ [c]) = dec_val s * 10 + char_minus_zero c"
  by (simp add: dec_val_def)

lemma dec_val_append: "dec_val (s @ t) = dec_val s * 10 ^ length t + dec_val t"
proof (induction t rule: rev_induct)
  case Nil
  then show ?case by simp
next
  case (snoc c t)
  have "dec_val (s @ t @ [c]) = dec_val (s @ t) * 10 + char_minus_zero c"
    using dec_val_snoc [of "s @ t" c] by simp
  then show ?case
    using snoc by (simp add: dec_val_snoc algebra_simps)
qed

lemma digit_string_simps [simp]:
  "digit_string []"
  "digit_string (c # s) \<longleftrightarrow> 48 \<le> (of_char c :: nat) \<and> (of_char c :: nat) \<le> 57 \<and> digit_string s"
  "digit_string (s @ t) \<longleftrightarrow> digit_string s \<and> digit_string t"
  by (auto simp: digit_string_def)

lemma digit_string_take: "digit_string s \<Longrightarrow> digit_string (take n s)"
  by (metis append_take_drop_id digit_string_simps(3))

lemma digit_string_drop: "digit_string s \<Longrightarrow> digit_string (drop n s)"
  by (metis append_take_drop_id digit_string_simps(3))

lemma digit_string_replicate_zero [simp]: "digit_string (replicate n CHR ''0'')"
  by (induction n) simp_all

lemma dec_val_Cons: "dec_val (c # s) = char_minus_zero c * 10 ^ length s + dec_val s"
  using dec_val_append [of "[c]" s] dec_val_snoc [of "[]" c] by simp

lemma dec_val_replicate_zero [simp]: "dec_val (replicate n CHR ''0'') = 0"
  by (induction n) (simp_all add: dec_val_Cons char_minus_zero_def)

lemma of_char_digit_char: "d < 10 \<Longrightarrow> (of_char (digit_char d) :: nat) = 48 + d"
  by (simp add: digit_char_def)

lemma char_minus_zero_digit_char: "d < 10 \<Longrightarrow> char_minus_zero (digit_char d) = int d"
  by (simp add: char_minus_zero_def of_char_digit_char)

lemma digit_char_zero: "digit_char 0 = CHR ''0''"
  by code_simp

lemma digit_string_digit_char: "d < 10 \<Longrightarrow> digit_string [digit_char d]"
  by (simp add: of_char_digit_char)

lemma dec_val_bounds: "digit_string s \<Longrightarrow> 0 \<le> dec_val s \<and> dec_val s < 10 ^ length s"
proof (induction s rule: rev_induct)
  case Nil
  then show ?case by simp
next
  case (snoc c s)
  then have "0 \<le> char_minus_zero c" "char_minus_zero c \<le> 9"
    by (simp_all add: char_minus_zero_def)
  with snoc show ?case
    by (simp add: dec_val_snoc)
qed


subsection \<open>The parse constructor\<close>

lemma map_nth_sub: "hi \<le> length s \<Longrightarrow> map ((!) s) [lo..<hi] = drop lo (take hi s)"
  by (rule nth_equalityI) (auto simp: nth_append)

lemma group_number_eq:
  assumes "0 \<le> lo" "nat (i + 1) \<le> length s"
  shows "group_number s lo i = dec_val (drop (nat lo) (take (nat (i + 1)) s))"
proof -
  have "group_number s lo i
        = fold ((\<lambda>c v. v * 10 + char_minus_zero c) \<circ> (!) s) [nat lo..<nat (i + 1)] 0"
    by (simp add: group_number_def comp_def)
  also have "\<dots> = fold (\<lambda>c v. v * 10 + char_minus_zero c) (map ((!) s) [nat lo..<nat (i + 1)]) 0"
    by (simp only: fold_map)
  finally show ?thesis
    using assms(2) by (simp add: map_nth_sub dec_val_def)
qed

lemma parse_loop_more:
  "cur \<le> i \<Longrightarrow> parse_loop s cur i a
     = parse_loop s cur (i - 2) (a @ [group_number s (max cur (i - 1)) i])"
  by (subst parse_loop.simps) (simp add: base_len_def)

lemma parse_loop_stop: "\<not> cur \<le> i \<Longrightarrow> parse_loop s cur i a = a"
  by (subst parse_loop.simps) simp

lemma parse_loop_val:
  assumes "0 \<le> cur" "nat (i + 1) \<le> length s" "digit_string (drop (nat cur) s)"
  shows "\<exists>P. parse_loop s cur i acc = acc @ P \<and> in_range P \<and> (cur \<le> i \<longrightarrow> P \<noteq> [])
           \<and> val_digits P = dec_val (drop (nat cur) (take (nat (i + 1)) s))"
  using assms
proof (induction s cur i acc rule: parse_loop.induct)
  case (1 s cur i acc)
  show ?case
  proof (cases "cur \<le> i")
    case False
    then have "drop (nat cur) (take (nat (i + 1)) s) = []"
      using 1(2) by simp
    then show ?thesis
      using False by (simp add: parse_loop_stop)
  next
    case True
    define lo where "lo = max cur (i - 1)"
    define g where "g = group_number s lo i"
    have lo: "0 \<le> lo" "cur \<le> lo" "lo \<le> i"
      using True 1(2) by (simp_all add: lo_def)
    have g: "g = dec_val (drop (nat lo) (take (nat (i + 1)) s))"
      unfolding g_def using lo(1) 1(3) by (rule group_number_eq)
    let ?w = "drop (nat lo) (take (nat (i + 1)) s)"
    have dw: "digit_string ?w"
    proof -
      have e: "?w = take (nat (i + 1) - nat lo) (drop (nat lo - nat cur) (drop (nat cur) s))"
        using lo 1(2) by (simp add: drop_take)
      show ?thesis
        unfolding e by (intro digit_string_take digit_string_drop 1(4))
    qed
    have lw: "length ?w = nat (i + 1 - lo)"
      using lo 1(3) by simp
    have "length ?w \<le> 2"
      using lw by (simp add: lo_def)
    then have "(10::int) ^ length ?w \<le> 10 ^ 2"
      by (intro power_increasing) simp_all
    then have gr: "0 \<le> g" "g < 100"
      using dec_val_bounds [OF dw] g by simp_all
    have "nat (i - int base_len + 1) \<le> length s"
      using 1(3) by (simp add: base_len_def)
    from "1.IH" [OF True 1(2) this 1(4)]
    obtain P where P: "parse_loop s cur (i - 2) (acc @ [g]) = (acc @ [g]) @ P" "in_range P"
        "val_digits P = dec_val (drop (nat cur) (take (nat (i - 2 + 1)) s))"
      by (auto simp: base_len_def g_def lo_def)
    have res: "parse_loop s cur i acc = acc @ (g # P)"
      using parse_loop_more [OF True, of s acc] P(1) by (simp add: g_def lo_def)
    have split: "drop (nat cur) (take (nat (i + 1)) s)
                 = drop (nat cur) (take (nat (i - 1)) s) @ ?w"
    proof (cases "cur \<le> i - 1")
      case True
      then have l: "lo = i - 1"
        by (simp add: lo_def)
      have "take (nat (i - 1)) (take (nat (i + 1)) s) = take (nat (i - 1)) s"
        by (simp add: min_def)
      then have "take (nat (i + 1)) s = take (nat (i - 1)) s @ drop (nat (i - 1)) (take (nat (i + 1)) s)"
        using append_take_drop_id [of "nat (i - 1)" "take (nat (i + 1)) s"] by simp
      then have "drop (nat cur) (take (nat (i + 1)) s)
            = drop (nat cur) (take (nat (i - 1)) s @ drop (nat (i - 1)) (take (nat (i + 1)) s))"
        by simp
      also have "\<dots> = drop (nat cur) (take (nat (i - 1)) s) @ drop (nat (i - 1)) (take (nat (i + 1)) s)"
        using True 1(2) 1(3) by simp
      finally show ?thesis
        by (simp add: l)
    next
      case False
      then have "lo = cur" "drop (nat cur) (take (nat (i - 1)) s) = []"
        using 1(2) by (simp_all add: lo_def)
      then show ?thesis by simp
    qed
    have lw2: "cur \<le> i - 1 \<Longrightarrow> length ?w = 2"
      using lw by (simp add: lo_def)
    have zero: "\<not> cur \<le> i - 1 \<Longrightarrow> dec_val (drop (nat cur) (take (nat (i - 1)) s)) = 0"
      using 1(2) by simp
    have "dec_val (drop (nat cur) (take (nat (i + 1)) s))
          = dec_val (drop (nat cur) (take (nat (i - 1)) s)) * 100 + g"
      using lw2 zero by (cases "cur \<le> i - 1") (simp_all add: split dec_val_append g)
    then have "val_digits (g # P) = dec_val (drop (nat cur) (take (nat (i + 1)) s))"
      using P(3) by simp
    then show ?thesis
      using res P(2) gr by auto
  qed
qed

lemma digit_string_not_minus: "digit_string (c # s) \<Longrightarrow> c \<noteq> CHR ''-''"
  by auto

lemma BigInteger_string_digits:
  assumes "digit_string body" "body \<noteq> []"
  shows "digits_ok (a_digits (BigInteger_string body))"
    and "val_digits (a_digits (BigInteger_string body)) = dec_val body"
    and "sign (BigInteger_string body) = plus_sign"
proof -
  have nm: "(body \<noteq> [] \<and> body ! 0 = CHR ''-'') = False"
    using assms by (cases body) auto
  obtain P where P: "parse_loop body 0 (int (length body) - 1) [] = [] @ P" "in_range P"
      "P \<noteq> []" "val_digits P = dec_val (drop (nat 0) (take (nat (int (length body) - 1 + 1)) body))"
    using parse_loop_val [of 0 "int (length body) - 1" body "[]"] assms
    by (cases body) auto
  have res: "BigInteger_string body = \<lparr>a_digits = delete_trailing_zeroes P, sign = plus_sign\<rparr>"
    using P(1) by (simp add: BigInteger_string_def Let_def nm)
  show "digits_ok (a_digits (BigInteger_string body))"
    using P(2,3) by (simp add: res dtz_digits_ok)
  show "val_digits (a_digits (BigInteger_string body)) = dec_val body"
    using P(4) by (simp add: res)
  show "sign (BigInteger_string body) = plus_sign"
    by (simp add: res)
qed

lemma BigInteger_string_minus_digits:
  assumes "digit_string body" "body \<noteq> []"
  shows "digits_ok (a_digits (BigInteger_string (CHR ''-'' # body)))"
    and "val_digits (a_digits (BigInteger_string (CHR ''-'' # body))) = dec_val body"
    and "sign (BigInteger_string (CHR ''-'' # body)) = minus_sign"
proof -
  let ?s = "CHR ''-'' # body"
  obtain P where P: "parse_loop ?s 1 (int (length ?s) - 1) [] = [] @ P" "in_range P"
      "P \<noteq> []" "val_digits P = dec_val (drop (nat 1) (take (nat (int (length ?s) - 1 + 1)) ?s))"
    using parse_loop_val [of 1 "int (length ?s) - 1" ?s "[]"] assms
    by (cases body) auto
  have res: "BigInteger_string ?s = \<lparr>a_digits = delete_trailing_zeroes P, sign = minus_sign\<rparr>"
    using P(1) by (simp add: BigInteger_string_def Let_def)
  show "digits_ok (a_digits (BigInteger_string ?s))"
    using P(2,3) by (simp add: res dtz_digits_ok)
  show "val_digits (a_digits (BigInteger_string ?s)) = dec_val body"
    using P(4) by (simp add: res)
  show "sign (BigInteger_string ?s) = minus_sign"
    by (simp add: res)
qed


subsection \<open>Formatting\<close>

lemma to_string_nat_one: "n < 10 \<Longrightarrow> to_string_nat n = [digit_char n]"
  by (subst to_string_nat.simps) simp

lemma to_string_nat_two:
  "10 \<le> n \<Longrightarrow> n < 100 \<Longrightarrow> to_string_nat n = [digit_char (n div 10), digit_char (n mod 10)]"
  by (subst to_string_nat.simps) (simp add: to_string_nat_one)

lemma number_to_string_group:
  assumes "0 \<le> d" "d < 100"
  shows "number_to_string d = Some [digit_char (nat d div 10), digit_char (nat d mod 10)]"
proof (cases "d < 10")
  case True
  then have "to_string d = [digit_char (nat d)]"
    using assms by (simp add: to_string_def to_string_nat_one)
  then show ?thesis
    using True assms by (simp add: number_to_string_def base_len_def digit_char_zero)
next
  case False
  then have "to_string d = [digit_char (nat d div 10), digit_char (nat d mod 10)]"
    using assms by (simp add: to_string_def to_string_nat_two)
  then show ?thesis
    by (simp add: number_to_string_def base_len_def)
qed

lemma group_chars:
  assumes "0 \<le> d" "d < 100"
  shows "digit_string [digit_char (nat d div 10), digit_char (nat d mod 10)]"
    and "dec_val [digit_char (nat d div 10), digit_char (nat d mod 10)] = d"
proof -
  have b: "nat d div 10 < 10" "nat d mod 10 < 10"
    using assms by simp_all
  show "digit_string [digit_char (nat d div 10), digit_char (nat d mod 10)]"
    using b by (simp add: of_char_digit_char)
  have "dec_val [digit_char (nat d div 10), digit_char (nat d mod 10)]
        = int (nat d div 10) * 10 + int (nat d mod 10)"
    using b by (simp add: dec_val_Cons char_minus_zero_digit_char)
  also have "\<dots> = d"
    using assms by (simp add: zdiv_int zmod_int)
  finally show "dec_val [digit_char (nat d div 10), digit_char (nat d mod 10)] = d" .
qed

lemma append_groups_ok:
  "in_range ds \<Longrightarrow> \<exists>G. append_groups ds = Some G \<and> digit_string G \<and> length G = 2 * length ds
                      \<and> dec_val G = val_digits (rev ds)"
proof (induction ds)
  case Nil
  then show ?case by simp
next
  case (Cons d ds)
  then obtain G where G: "append_groups ds = Some G" "digit_string G" "length G = 2 * length ds"
      "dec_val G = val_digits (rev ds)"
    by auto
  have d: "0 \<le> d" "d < 100"
    using Cons.prems by simp_all
  let ?t = "[digit_char (nat d div 10), digit_char (nat d mod 10)]"
  have "append_groups (d # ds) = Some (?t @ G)"
    using G(1) number_to_string_group [OF d] by simp
  moreover have "digit_string (?t @ G)"
    using group_chars(1) [OF d] G(2) by (simp only: digit_string_simps(3))
  moreover have "length (?t @ G) = 2 * length (d # ds)"
    using G(3) by simp
  moreover have "dec_val (?t @ G) = val_digits (rev (d # ds))"
    using group_chars(2) [OF d] G(3,4)
    by (simp only: dec_val_append) (simp add: val_digits_append power_mult)
  ultimately show ?case
    by blast
qed

lemma pop_back_zeroes_shape:
  "\<exists>k. t = pop_back_zeroes t @ replicate k CHR ''0'' \<and> (t \<noteq> [] \<longrightarrow> pop_back_zeroes t \<noteq> [])"
proof (induction t rule: pop_back_zeroes.induct)
  case (1 s)
  show ?case
  proof (cases "length s > 1 \<and> last s = CHR ''0''")
    case True
    then have e: "pop_back_zeroes s = pop_back_zeroes (butlast s)"
      by (subst pop_back_zeroes.simps) simp
    from True have s: "s = butlast s @ [CHR ''0'']" "butlast s \<noteq> []"
      by (cases s rule: rev_cases; auto)+
    from 1 [OF True] obtain k where
      k: "butlast s = pop_back_zeroes (butlast s) @ replicate k CHR ''0''"
         "pop_back_zeroes (butlast s) \<noteq> []"
      using s(2) by auto
    have "s = pop_back_zeroes s @ replicate (Suc k) CHR ''0''"
      using s(1) k(1) by (metis e append.assoc replicate_append_same replicate_Suc)
    then show ?thesis
      using k(2) e by metis
  next
    case False
    then have "pop_back_zeroes s = s"
      by (subst pop_back_zeroes.simps) auto
    then show ?thesis
      by (intro exI [of _ 0]) simp
  qed
qed

lemma pop_back_zeroes_last:
  "1 < length (pop_back_zeroes t) \<Longrightarrow> last (pop_back_zeroes t) \<noteq> CHR ''0''"
proof (induction t rule: pop_back_zeroes.induct)
  case (1 s)
  show ?case
  proof (cases "length s > 1 \<and> last s = CHR ''0''")
    case True
    then have e: "pop_back_zeroes s = pop_back_zeroes (butlast s)"
      by (subst pop_back_zeroes.simps) simp
    with 1 True show ?thesis by simp
  next
    case False
    then have "pop_back_zeroes s = s"
      by (subst pop_back_zeroes.simps) auto
    with False 1(2) show ?thesis by simp
  qed
qed

lemma delete_trailing_zeroes_str_ok:
  assumes "digit_string s" "s \<noteq> []"
  shows "digit_string (delete_trailing_zeroes_str s)" "delete_trailing_zeroes_str s \<noteq> []"
    "dec_val (delete_trailing_zeroes_str s) = dec_val s"
proof -
  obtain k where k: "rev s = pop_back_zeroes (rev s) @ replicate k CHR ''0''"
      "pop_back_zeroes (rev s) \<noteq> []"
    using pop_back_zeroes_shape [of "rev s"] assms(2) by auto
  have r: "delete_trailing_zeroes_str s = rev (pop_back_zeroes (rev s))"
    by (simp add: delete_trailing_zeroes_str_def reverse_str_def)
  have s: "s = replicate k CHR ''0'' @ delete_trailing_zeroes_str s"
    using arg_cong [OF k(1), of rev] by (simp add: r)
  show "digit_string (delete_trailing_zeroes_str s)"
    using assms(1) by (subst (asm) s) simp
  show "delete_trailing_zeroes_str s \<noteq> []"
    using k(2) by (simp add: r)
  show "dec_val (delete_trailing_zeroes_str s) = dec_val s"
    by (subst (2) s) (simp add: dec_val_append)
qed

lemma toString_ok:
  assumes "digits_ok (a_digits x)"
  shows "\<exists>body. toString x = Some ((if sign x = minus_sign then [CHR ''-''] else []) @ body)
           \<and> digit_string body \<and> body \<noteq> [] \<and> dec_val body = val_digits (a_digits x)"
proof -
  have ne: "a_digits x \<noteq> []" and ir: "in_range (rev (a_digits x))"
    using assms by (simp_all add: digits_ok_def in_range_def)
  obtain G where G: "append_groups (rev (a_digits x)) = Some G" "digit_string G"
      "length G = 2 * length (rev (a_digits x))" "dec_val G = val_digits (rev (rev (a_digits x)))"
    using append_groups_ok [OF ir] by blast
  have gne: "G \<noteq> []"
    using G(3) ne by auto
  note d = delete_trailing_zeroes_str_ok [OF G(2) gne]
  have "toString x = Some ((if sign x = minus_sign then [CHR ''-''] else [])
                             @ delete_trailing_zeroes_str G)"
    using ne G(1) by (simp add: toString_def)
  then show ?thesis
    using d G(4) by auto
qed


subsection \<open>Division by ten\<close>

lemma sdiv_nonneg: "0 \<le> x \<Longrightarrow> 0 < y \<Longrightarrow> (x :: int) sdiv y = x div y"
  by (simp add: signed_divide_int_def sgn_if)

lemma smod_nonneg: "0 \<le> x \<Longrightarrow> 0 < y \<Longrightarrow> (x :: int) smod y = x mod y"
  by (simp add: signed_modulo_int_def sgn_if)

lemma div10_loop:
  assumes "in_range x0" "d \<le> length x0"
  shows "\<exists>x' add. fold div10_step (rev [length x0 - d..<length x0]) (x0, 0) = (x', add)
           \<and> length x' = length x0 \<and> take (length x0 - d) x' = take (length x0 - d) x0
           \<and> in_range (drop (length x0 - d) x') \<and> 0 \<le> add \<and> add < 10
           \<and> val_digits (drop (length x0 - d) x0) = 10 * val_digits (drop (length x0 - d) x') + add"
  using assms(2)
proof (induction d)
  case 0
  then show ?case by simp
next
  case (Suc d)
  define n where "n = length x0"
  define k where "k = n - Suc d"
  have k: "k < n" "n - d = Suc k"
    using Suc.prems by (simp_all add: k_def n_def)
  obtain x' add where ih: "fold div10_step (rev [Suc k..<n]) (x0, 0) = (x', add)"
      "length x' = n" "take (Suc k) x' = take (Suc k) x0" "in_range (drop (Suc k) x')"
      "0 \<le> add" "add < 10"
      "val_digits (drop (Suc k) x0) = 10 * val_digits (drop (Suc k) x') + add"
    using Suc unfolding n_def [symmetric] k(2) by auto
  define cur where "cur = x' ! k + add * base"
  have xk: "x' ! k = x0 ! k"
    using ih(3) by (metis lessI nth_take)
  have r0: "0 \<le> x0 ! k" "x0 ! k < 100"
    using in_range_nth [OF assms(1), of k] k(1) by (simp_all add: n_def)
  have rc: "0 \<le> cur" "cur < 1000"
    using r0 ih(5,6) xk by (simp_all add: cur_def base_def)
  have sd: "cur sdiv 10 = cur div 10" and sm: "cur smod 10 = cur mod 10"
    using rc by (simp_all add: sdiv_nonneg smod_nonneg)
  have "div10_step k (x', add) = (x'[k := cur sdiv 10], cur smod 10)"
    by (simp add: div10_step_def Let_def cur_def)
  moreover have "rev [k..<n] = rev [Suc k..<n] @ [k]"
    using k(1) by (simp add: upt_conv_Cons)
  ultimately have step: "fold div10_step (rev [k..<n]) (x0, 0) = (x'[k := cur div 10], cur mod 10)"
    by (simp add: ih(1) sd sm)
  have tk: "take k (x'[k := cur div 10]) = take k x0"
    using arg_cong [OF ih(3), of "take k"] by (simp add: min_def)
  have "drop k x' = x' ! k # drop (Suc k) x'"
    using k(1) ih(2) by (simp add: Cons_nth_drop_Suc)
  then have dr: "drop k (x'[k := cur div 10]) = cur div 10 # drop (Suc k) x'"
    by (simp add: drop_update_swap)
  have d0: "drop k x0 = x0 ! k # drop (Suc k) x0"
    using k(1) by (simp add: Cons_nth_drop_Suc n_def)
  have "0 \<le> cur div 10" "cur div 10 < 100"
    using rc by linarith+
  then have ir: "in_range (drop k (x'[k := cur div 10]))"
    using ih(4) by (simp add: dr)
  have "val_digits (drop k x0) = cur + 1000 * val_digits (drop (Suc k) x')"
    using ih(7) by (simp add: d0 cur_def xk base_def)
  also have "\<dots> = 10 * val_digits (drop k (x'[k := cur div 10])) + cur mod 10"
    by (simp add: dr)
  finally have v: "val_digits (drop k x0) = 10 * val_digits (drop k (x'[k := cur div 10])) + cur mod 10" .
  have a': "0 \<le> cur mod 10" "cur mod 10 < 10"
    by simp_all
  show ?case
    unfolding n_def [symmetric] k_def [symmetric]
    using step ih(2) tk ir a' v
    by (intro exI [of _ "x'[k := cur div 10]"] exI [of _ "cur mod 10"]) simp
qed

lemma div10_correct:
  assumes "in_range (a_digits x)" "a_digits x \<noteq> []"
  shows "digits_ok (a_digits (div10 x))" "val_digits (a_digits (div10 x)) = val_digits (a_digits x) div 10"
    "sign (div10 x) = sign x"
proof -
  obtain x' add where r: "fold div10_step (rev [0..<length (a_digits x)]) (a_digits x, 0) = (x', add)"
      "length x' = length (a_digits x)" "in_range x'" "0 \<le> add" "add < 10"
      "val_digits (a_digits x) = 10 * val_digits x' + add"
    using div10_loop [OF assms(1), of "length (a_digits x)"] by auto
  have res: "div10 x = x\<lparr>a_digits := delete_trailing_zeroes x'\<rparr>"
    using r(1) by (simp add: div10_def)
  have "x' \<noteq> []"
    using r(2) assms(2) by auto
  then show "digits_ok (a_digits (div10 x))"
    using r(3) by (simp add: res dtz_digits_ok)
  show "val_digits (a_digits (div10 x)) = val_digits (a_digits x) div 10"
    using r(4,5,6) by (simp add: res)
  show "sign (div10 x) = sign x"
    by (simp add: res)
qed


subsection \<open>The long division\<close>

lemma canonical_nonneg:
  assumes "canonical y" "0 \<le> value_of y"
  shows "sign y = plus_sign" "val_digits (a_digits y) = value_of y"
proof -
  have nn: "0 \<le> val_digits (a_digits y)"
    using assms(1) val_digits_bounds by (simp add: canonical_def digits_ok_def)
  have z: "val_digits (a_digits y) = 0 \<longrightarrow> sign y = plus_sign"
    using assms(1) digits_ok_zero [of "a_digits y"] by (auto simp: canonical_def is_zero_iff)
  show "sign y = plus_sign"
    using assms(2) nn z sign_cases [of "sign y"] by (auto simp: value_of_def split: if_splits)
  then show "val_digits (a_digits y) = value_of y"
    by (simp add: value_of_def)
qed

lemma value_of_plus: "sign y = plus_sign \<Longrightarrow> value_of y = val_digits (a_digits y)"
  by (simp add: value_of_def)

lemma subtract_loop_correct:
  assumes "canonical this" "sign this = plus_sign" "digits_ok (a_digits sub)" "sign sub = plus_sign"
  shows "\<exists>this' m. subtract_loop k number this sub = (this', number + m) \<and> canonical this'
           \<and> sign this' = plus_sign \<and> m \<le> k
           \<and> val_digits (a_digits this') = val_digits (a_digits this) - int m * val_digits (a_digits sub)
           \<and> (m < k \<longrightarrow> val_digits (a_digits this') < val_digits (a_digits sub))
           \<and> 0 \<le> val_digits (a_digits this')"
  using assms(1,2)
proof (induction k arbitrary: number this)
  case 0
  then show ?case
    using val_digits_bounds [of "a_digits this"]
    by (intro exI [of _ this] exI [of _ 0]) (simp add: canonical_def digits_ok_def)
next
  case (Suc k)
  let ?R = "val_digits (a_digits this)" and ?S = "val_digits (a_digits sub)"
  have dt: "digits_ok (a_digits this)"
    using Suc.prems(1) by (rule canonicalD)
  have nn: "0 \<le> ?R"
    using dt val_digits_bounds by (simp add: digits_ok_def)
  show ?case
  proof (cases "less_abs this sub")
    case True
    then have "?R < ?S"
      using less_abs_iff [OF dt assms(3)] by simp
    then show ?thesis
      using True Suc.prems nn by (intro exI [of _ this] exI [of _ 0]) simp
  next
    case False
    then have ge: "?S \<le> ?R"
      using less_abs_iff [OF dt assms(3)] by simp
    define t1 where "t1 = minus_assign this sub"
    have c1: "canonical t1" and v1: "value_of t1 = ?R - ?S"
      unfolding t1_def using minus_assign_correct [OF Suc.prems(1) assms(3)]
      by (simp_all add: value_of_plus Suc.prems(2) assms(4))
    have s1: "sign t1 = plus_sign" and d1: "val_digits (a_digits t1) = ?R - ?S"
      using canonical_nonneg [OF c1] v1 ge by simp_all
    from Suc.IH [OF c1 s1, of "Suc number"] obtain this' m where
      r: "subtract_loop k (Suc number) t1 sub = (this', Suc number + m)" "canonical this'"
        "sign this' = plus_sign" "m \<le> k"
        "val_digits (a_digits this') = val_digits (a_digits t1) - int m * ?S"
        "m < k \<longrightarrow> val_digits (a_digits this') < ?S" "0 \<le> val_digits (a_digits this')"
      by blast
    have "subtract_loop (Suc k) number this sub = (this', number + Suc m)"
      using False r(1) by (simp add: t1_def)
    moreover have "val_digits (a_digits this') = ?R - int (Suc m) * ?S"
      using r(5) d1 by (simp add: algebra_simps)
    ultimately show ?thesis
      using r(2,3,4,6,7) by (intro exI [of _ this'] exI [of _ "Suc m"]) simp
  qed
qed

lemma quotient_digit:
  assumes "0 < S" "0 \<le> R'" "R' < S" "R' = R - m * (S :: int)"
  shows "m = R div S" "R' = R mod S"
proof -
  have e: "R = m * S + R'"
    using assms(4) by simp
  show "m = R div S"
    unfolding e using assms(1,2,3) by (simp add: div_pos_pos_trivial)
  show "R' = R mod S"
    unfolding e using assms(1,2,3) by (simp add: mod_pos_pos_trivial)
qed

lemma subtract_loop_digit:
  assumes "canonical this" "sign this = plus_sign" "digits_ok (a_digits sub)" "sign sub = plus_sign"
    and "0 < val_digits (a_digits sub)" "val_digits (a_digits this) < 10 * val_digits (a_digits sub)"
  shows "\<exists>this'. subtract_loop 9 0 this sub
              = (this', nat (val_digits (a_digits this) div val_digits (a_digits sub)))
           \<and> canonical this' \<and> sign this' = plus_sign
           \<and> val_digits (a_digits this') = val_digits (a_digits this) mod val_digits (a_digits sub)
           \<and> val_digits (a_digits this) div val_digits (a_digits sub) < 10"
proof -
  let ?R = "val_digits (a_digits this)" and ?S = "val_digits (a_digits sub)"
  obtain this' m where r: "subtract_loop 9 0 this sub = (this', 0 + m)" "canonical this'"
      "sign this' = plus_sign" "m \<le> 9" "val_digits (a_digits this') = ?R - int m * ?S"
      "m < 9 \<longrightarrow> val_digits (a_digits this') < ?S" "0 \<le> val_digits (a_digits this')"
    using subtract_loop_correct [OF assms(1-4), of 9 0] by blast
  have lt: "val_digits (a_digits this') < ?S"
  proof (cases "m < 9")
    case True
    with r(6) show ?thesis by simp
  next
    case False
    with r(4) have "m = 9" by simp
    with r(5) assms(6) show ?thesis by simp
  qed
  note q = quotient_digit [OF assms(5) r(7) lt r(5)]
  have "nat (?R div ?S) = m"
    using q(1) by simp
  moreover have "?R div ?S < 10"
    using q(1) [symmetric] r(4) by simp
  ultimately show ?thesis
    using r(1,2,3) q(2) by (intro exI [of _ this']) simp
qed

lemma div_split_pow10:
  assumes "0 < D" "0 \<le> (R :: int)"
  shows "R div D = (R div (D * 10 ^ n)) * 10 ^ n + (R mod (D * 10 ^ n)) div D"
proof -
  define S where "S = D * 10 ^ n"
  have "R = (R div S) * S + R mod S"
    by simp
  also have "(R div S) * S = (R div S) * 10 ^ n * D"
    by (simp add: S_def)
  finally have "R = (R div S) * 10 ^ n * D + R mod S" .
  then have "R div D = ((R div S) * 10 ^ n * D + R mod S) div D"
    by simp
  also have "\<dots> = (R div S) * 10 ^ n + (R mod S) div D"
    using assms(1) by (simp add: div_mult_self3)
  finally show ?thesis
    by (simp add: S_def)
qed

lemma divide_loop_correct:
  assumes "canonical this" "sign this = plus_sign" "digits_ok (a_digits sub)" "sign sub = plus_sign"
    and "0 < D" "0 < n \<longrightarrow> val_digits (a_digits sub) = D * 10 ^ (n - 1)"
    and "val_digits (a_digits this) < D * 10 ^ n"
  shows "\<exists>this' sub' ds. divide_loop n this sub result = (this', sub', result @ ds)
           \<and> length ds = n \<and> digit_string ds \<and> dec_val ds = val_digits (a_digits this) div D"
  using assms(1,2,3,4,6,7)
proof (induction n arbitrary: this sub result)
  case 0
  then have "val_digits (a_digits this) div D = 0"
    using val_digits_bounds [of "a_digits this"]
    by (simp add: canonical_def digits_ok_def div_pos_pos_trivial)
  then show ?case by simp
next
  case (Suc n)
  let ?R = "val_digits (a_digits this)" and ?S = "val_digits (a_digits sub)"
  have S: "?S = D * 10 ^ n"
    using Suc.prems(5) by simp
  have Spos: "0 < ?S"
    using assms(5) by (simp add: S)
  have nn: "0 \<le> ?R"
    using Suc.prems(1) val_digits_bounds by (simp add: canonical_def digits_ok_def)
  have lt: "?R < 10 * ?S"
    using Suc.prems(6) by (simp add: S algebra_simps)
  obtain this' where t: "subtract_loop 9 0 this sub = (this', nat (?R div ?S))" "canonical this'"
      "sign this' = plus_sign" "val_digits (a_digits this') = ?R mod ?S" "?R div ?S < 10"
    using subtract_loop_digit [OF Suc.prems(1-4) Spos lt] by blast
  have ne: "a_digits sub \<noteq> []" and ir: "in_range (a_digits sub)"
    using Suc.prems(3) by (simp_all add: digits_ok_def)
  note d = div10_correct [OF ir ne]
  have d5: "0 < n \<longrightarrow> val_digits (a_digits (div10 sub)) = D * 10 ^ (n - 1)"
  proof
    assume "0 < n"
    then obtain n' where n': "n = Suc n'"
      by (cases n) simp_all
    show "val_digits (a_digits (div10 sub)) = D * 10 ^ (n - 1)"
      by (simp add: d(2) S n')
  qed
  have d6: "val_digits (a_digits this') < D * 10 ^ n"
    using t(4) Spos S by (metis pos_mod_bound)
  define m where "m = nat (?R div ?S)"
  have m: "m < 10" "int m = ?R div ?S"
    using t(5) nn Spos by (simp_all add: m_def pos_imp_zdiv_nonneg_iff)
  from Suc.IH [OF t(2,3) d(1) _ d5 d6, of "result @ [digit_char m]"] d(3) Suc.prems(4)
  obtain this'' sub'' ds where
    r: "divide_loop n this' (div10 sub) (result @ [digit_char m]) = (this'', sub'', (result @ [digit_char m]) @ ds)"
      "length ds = n" "digit_string ds" "dec_val ds = val_digits (a_digits this') div D"
    by auto
  have "divide_loop (Suc n) this sub result = (this'', sub'', result @ (digit_char m # ds))"
    using t(1) r(1) by (simp add: m_def)
  moreover have "digit_string (digit_char m # ds)"
    using r(3) m(1) by (simp add: of_char_digit_char)
  moreover have "dec_val (digit_char m # ds) = ?R div D"
    using r(2,4) m t(4) div_split_pow10 [OF assms(5) nn, of n]
    by (simp add: dec_val_Cons char_minus_zero_digit_char S)
  ultimately show ?case
    using r(2) by (intro exI [of _ this''] exI [of _ sub''] exI [of _ "digit_char m # ds"]) simp
qed


lemma sdiv_value_of:
  assumes "in_range (a_digits a)" "in_range (a_digits x)"
  shows "value_of a sdiv value_of x
         = (if sign_mul (sign a) (sign x) = minus_sign
            then - (val_digits (a_digits a) div val_digits (a_digits x))
            else val_digits (a_digits a) div val_digits (a_digits x))"
proof -
  let ?R = "val_digits (a_digits a)" and ?D = "val_digits (a_digits x)"
  have nn: "0 \<le> ?R" "0 \<le> ?D"
    using assms val_digits_bounds by simp_all
  show ?thesis
  proof (cases "?R = 0 \<or> ?D = 0")
    case True
    then show ?thesis
      by (auto simp: value_of_def signed_divide_int_def)
  next
    case False
    then have "0 < ?R" "0 < ?D"
      using nn by simp_all
    then show ?thesis
      using sign_cases [of "sign a"] sign_cases [of "sign x"]
      by (auto simp: value_of_def signed_divide_int_def sign_mul_def)
  qed
qed

lemma parse_result_string:
  assumes "digit_string ds" "ds \<noteq> []"
  shows "digits_ok (a_digits (BigInteger_string ((if neg then [CHR ''-''] else []) @ ds)))"
    and "val_digits (a_digits (BigInteger_string ((if neg then [CHR ''-''] else []) @ ds))) = dec_val ds"
    and "sign (BigInteger_string ((if neg then [CHR ''-''] else []) @ ds))
         = (if neg then minus_sign else plus_sign)"
  using BigInteger_string_digits [OF assms] BigInteger_string_minus_digits [OF assms]
  by (cases neg; simp)+

lemma power_10_twice: "(10::int) ^ (n * 2) = 100 ^ n"
proof -
  have "(10::int) ^ (2 * n) = (10 ^ 2) ^ n"
    by (rule power_mult)
  then show ?thesis
    by (simp add: mult.commute)
qed

lemma divide_assign_correct:
  assumes "canonical a" "canonical x" "\<not> is_zero x"
  shows "\<exists>q. divide_assign a x = Some q \<and> canonical q \<and> value_of q = value_of a sdiv value_of x"
proof -
  let ?R = "val_digits (a_digits a)" and ?D = "val_digits (a_digits x)"
  have da: "digits_ok (a_digits a)" and dx: "digits_ok (a_digits x)"
    using assms(1,2) by (simp_all add: canonical_def)
  have ra: "in_range (a_digits a)" and rx: "in_range (a_digits x)"
    using da dx by (simp_all add: digits_ok_def)
  have nn: "0 \<le> ?R" "?R < 100 ^ length (a_digits a)"
    using val_digits_bounds [OF ra] by simp_all
  have Dpos: "0 < ?D"
    using assms(3) digits_ok_zero [OF dx] val_digits_bounds [OF rx] by (simp add: is_zero_iff)
  note sv = sdiv_value_of [OF ra rx]
  show ?thesis
  proof (cases "length (a_digits x) > length (a_digits a)")
    case True
    then have "?R < ?D"
      by (rule digits_ok_length_less [OF da dx])
    then have "?R div ?D = 0"
      using nn by (simp add: div_pos_pos_trivial)
    then have "value_of a sdiv value_of x = 0"
      by (simp add: sv)
    moreover have "divide_assign a x = Some \<lparr>a_digits = [0], sign = plus_sign\<rparr>"
      using True by (simp add: divide_assign_def)
    moreover have "canonical \<lparr>a_digits = [0], sign = plus_sign\<rparr>"
      by (simp add: canonical_def digits_ok_def)
    moreover have "value_of \<lparr>a_digits = [0], sign = plus_sign\<rparr> = 0"
      by (simp add: value_of_def)
    ultimately show ?thesis
      by simp
  next
    case False
    define neg where "neg = (sign_mul (sign a) (sign x) = minus_sign)"
    define pfx where "pfx = (if neg then [CHR ''-''] else [])"
    define degree where "degree = (length (a_digits a) - length (a_digits x) + 1) * base_len"
    have dxp: "digits_ok (a_digits (x\<lparr>sign := plus_sign\<rparr>))"
      using dx by simp
    obtain divisor where dv: "toString (x\<lparr>sign := plus_sign\<rparr>) = Some divisor"
        "digit_string divisor" "divisor \<noteq> []" "dec_val divisor = ?D"
      using toString_ok [OF dxp] by auto
    define sub where "sub = BigInteger_string (divisor @ replicate degree CHR ''0'')"
    have sub: "digits_ok (a_digits sub)" "val_digits (a_digits sub) = ?D * 10 ^ degree"
        "sign sub = plus_sign"
      unfolding sub_def
      using BigInteger_string_digits [of "divisor @ replicate degree CHR ''0''"] dv(2,3,4)
      by (simp_all add: dec_val_append)
    define this1 where "this1 = a\<lparr>sign := plus_sign\<rparr>"
    have t1: "canonical this1" "sign this1 = plus_sign" "val_digits (a_digits this1) = ?R"
      using da by (simp_all add: this1_def canonical_def)
    have low: "100 ^ (length (a_digits x) - 1) \<le> ?D"
    proof (cases "length (a_digits x) > 1")
      case True
      then show ?thesis
        using dx by (intro val_digits_lower) (auto simp: digits_ok_def)
    next
      case False
      then show ?thesis
        using Dpos by simp
    qed
    have lx: "1 \<le> length (a_digits x)" "length (a_digits x) \<le> length (a_digits a)"
      using dx False by (auto simp: digits_ok_def Suc_le_eq)
    have e: "length (a_digits a)
          = (length (a_digits x) - 1) + (length (a_digits a) - length (a_digits x) + 1)"
      using lx by simp
    have "(100::int) ^ length (a_digits a)
          = 100 ^ ((length (a_digits x) - 1) + (length (a_digits a) - length (a_digits x) + 1))"
      using arg_cong [OF e, of "\<lambda>n. (100::int) ^ n"] .
    also have "\<dots>
          = 100 ^ (length (a_digits x) - 1) * 100 ^ (length (a_digits a) - length (a_digits x) + 1)"
      by (rule power_add)
    also have "\<dots> \<le> ?D * 100 ^ (length (a_digits a) - length (a_digits x) + 1)"
      using low by (intro mult_right_mono) simp_all
    also have "\<dots> = ?D * 10 ^ degree"
      by (simp only: degree_def base_len_def power_10_twice)
    finally have "?R < ?D * 10 ^ degree"
      using nn(2) by simp
    also have "\<dots> \<le> ?D * 10 ^ (degree + 1)"
      using Dpos by simp
    finally have lt: "val_digits (a_digits this1) < ?D * 10 ^ (degree + 1)"
      by (simp add: t1(3))
    have sv': "0 < degree + 1 \<longrightarrow> val_digits (a_digits sub) = ?D * 10 ^ (degree + 1 - 1)"
      by (simp add: sub(2))
    obtain this2 sub' ds where
      r: "divide_loop (degree + 1) this1 sub pfx = (this2, sub', pfx @ ds)"
        "length ds = degree + 1" "digit_string ds" "dec_val ds = ?R div ?D"
      using divide_loop_correct [OF t1(1,2) sub(1,3) Dpos sv' lt, of pfx] t1(3) by auto
    have dne: "ds \<noteq> []"
      using r(2) by auto
    define this3 where "this3 = BigInteger_string (pfx @ ds)"
    have t3: "digits_ok (a_digits this3)" "val_digits (a_digits this3) = ?R div ?D"
        "sign this3 = (if neg then minus_sign else plus_sign)"
      unfolding this3_def pfx_def using parse_result_string [OF r(3) dne, of neg] r(4) by simp_all
    define q where "q = (if is_zero this3 then this3\<lparr>sign := plus_sign\<rparr> else this3)"
    have "divide_assign a x
          = (let (this2, sub', result') = divide_loop (degree + 1) this1 sub pfx;
                 this3 = BigInteger_string result';
                 this4 = this3\<lparr>a_digits := delete_trailing_zeroes (a_digits this3)\<rparr>
             in Some (if is_zero this4 then this4\<lparr>sign := plus_sign\<rparr> else this4))"
      unfolding divide_assign_def Let_def degree_def neg_def pfx_def this1_def sub_def
      using False dv(1) by (simp del: divide_loop.simps)
    also have "\<dots> = (let this4 = this3\<lparr>a_digits := delete_trailing_zeroes (a_digits this3)\<rparr>
             in Some (if is_zero this4 then this4\<lparr>sign := plus_sign\<rparr> else this4))"
      by (simp only: r(1) Let_def prod.case this3_def)
    also have "\<dots> = Some q"
      using t3(1) by (simp add: dtz_id q_def)
    finally have res: "divide_assign a x = Some q" .
    have cq: "canonical q"
      using t3(1) by (auto simp: q_def canonical_def is_zero_iff)
    have z: "is_zero this3 \<longleftrightarrow> ?R div ?D = 0"
      using digits_ok_zero [OF t3(1)] t3(2) by (simp add: is_zero_iff)
    have "value_of q = (if neg then - (?R div ?D) else ?R div ?D)"
      using t3(2,3) z by (auto simp: q_def value_of_def)
    then have "value_of q = value_of a sdiv value_of x"
      unfolding sv neg_def by simp
    then show ?thesis
      using res cq by simp
  qed
qed


subsection \<open>Division by a divisor of magnitude zero\<close>

lemma toString_zero: "toString \<lparr>a_digits = [0], sign = plus_sign\<rparr> = Some ''0''"
  by code_simp

lemma div10_zero:
  "div10 \<lparr>a_digits = [0], sign = plus_sign\<rparr> = \<lparr>a_digits = [0], sign = plus_sign\<rparr>"
  by (simp add: div10_def div10_step_def base_def)

lemma digit_char_nine: "digit_char 9 = CHR ''9''"
  by code_simp

lemma dec_val_nines: "dec_val (replicate n CHR ''9'') = 10 ^ n - 1"
  by (induction n) (simp_all add: dec_val_Cons char_minus_zero_def algebra_simps)

lemma digit_string_nines [simp]: "digit_string (replicate n CHR ''9'')"
  by (induction n) simp_all

lemma divide_loop_by_zero:
  assumes "canonical this" "sign this = plus_sign"
  shows "divide_loop n this \<lparr>a_digits = [0], sign = plus_sign\<rparr> result
         = (this, \<lparr>a_digits = [0], sign = plus_sign\<rparr>, result @ replicate n CHR ''9'')"
proof (induction n arbitrary: result)
  case 0
  then show ?case by simp
next
  case (Suc n)
  let ?Z = "\<lparr>a_digits = [0], sign = plus_sign\<rparr>"
  have dz: "digits_ok (a_digits ?Z)" "sign ?Z = plus_sign"
    by (simp_all add: digits_ok_def)
  obtain this' m where r: "subtract_loop 9 0 this ?Z = (this', 0 + m)" "canonical this'"
      "sign this' = plus_sign" "m \<le> 9"
      "val_digits (a_digits this') = val_digits (a_digits this) - int m * val_digits (a_digits ?Z)"
      "m < 9 \<longrightarrow> val_digits (a_digits this') < val_digits (a_digits ?Z)"
      "0 \<le> val_digits (a_digits this')"
    using subtract_loop_correct [OF assms dz, of 9 0] by blast
  have "m = 9"
    using r(4,6,7) by (cases "m < 9") simp_all
  moreover have "this' = this"
    using r(2,3,5) assms by (intro canonical_inj) (simp_all add: value_of_plus)
  ultimately have "subtract_loop 9 0 this ?Z = (this, 9)"
    using r(1) by simp
  then have "divide_loop (Suc n) this ?Z result = divide_loop n this ?Z (result @ [CHR ''9''])"
    by (simp add: div10_zero digit_char_nine)
  also have "\<dots> = (this, ?Z, (result @ [CHR ''9'']) @ replicate n CHR ''9'')"
    by (rule Suc.IH)
  finally show ?case
    by (simp add: replicate_append_same)
qed

lemma divide_by_zero:
  assumes "canonical a" "a_digits x = [0]"
  defines "neg \<equiv> sign_mul (sign a) (sign x) = minus_sign"
  defines "q \<equiv> BigInteger_string ((if neg then [CHR ''-''] else [])
                  @ replicate (2 * length (a_digits a) + 1) CHR ''9'')"
  shows "divide_assign a x = Some q" "canonical q"
    "value_of q = (if neg then - 1 else 1) * (10 ^ (2 * length (a_digits a) + 1) - 1)"
proof -
  let ?Z = "\<lparr>a_digits = [0], sign = plus_sign\<rparr>"
  define degree where "degree = 2 * length (a_digits a)"
  define nines where "nines = replicate (degree + 1) CHR ''9''"
  define pfx where "pfx = (if neg then [CHR ''-''] else [])"
  have la: "1 \<le> length (a_digits a)"
    using assms(1) by (cases "a_digits a") (simp_all add: canonical_def digits_ok_def)
  have deg: "(length (a_digits a) - length (a_digits x) + 1) * base_len = degree"
    using la by (simp add: assms(2) base_len_def degree_def)
  have xz: "x\<lparr>sign := plus_sign\<rparr> = ?Z"
    using assms(2) by (cases x) simp
  have ane: "a_digits a \<noteq> []"
    using la by auto
  have sub: "BigInteger_string (CHR ''0'' # replicate degree CHR ''0'') = ?Z"
  proof -
    let ?s = "CHR ''0'' # replicate degree CHR ''0''"
    note p = BigInteger_string_digits [of ?s]
    have "digits_ok (a_digits (BigInteger_string ?s))" "val_digits (a_digits (BigInteger_string ?s)) = 0"
        "sign (BigInteger_string ?s) = plus_sign"
      using p by (simp_all add: dec_val_Cons char_minus_zero_def)
    then have "a_digits (BigInteger_string ?s) = [0]" "sign (BigInteger_string ?s) = plus_sign"
      using digits_ok_zero by simp_all
    then show ?thesis
      by (cases "BigInteger_string ?s") simp
  qed
  define this1 where "this1 = a\<lparr>sign := plus_sign\<rparr>"
  have t1: "canonical this1" "sign this1 = plus_sign"
    using assms(1) by (simp_all add: this1_def canonical_def)
  have loop: "divide_loop (degree + 1) this1 ?Z pfx = (this1, ?Z, pfx @ nines)"
    unfolding nines_def by (rule divide_loop_by_zero [OF t1])
  have q: "q = BigInteger_string (pfx @ nines)"
    by (simp add: q_def pfx_def nines_def degree_def)
  have dn: "digit_string nines" "nines \<noteq> []" "dec_val nines = 10 ^ (degree + 1) - 1"
    by (simp_all add: nines_def dec_val_nines del: replicate_Suc)
  note p = parse_result_string [OF dn(1,2), of neg]
  have dq: "digits_ok (a_digits q)" and vq: "val_digits (a_digits q) = 10 ^ (degree + 1) - 1"
    and sq: "sign q = (if neg then minus_sign else plus_sign)"
    using p dn(3) by (simp_all add: q pfx_def)
  have "(1::int) < 10 ^ (degree + 1)"
    by (rule one_less_power) simp_all
  then have nz: "\<not> is_zero q"
    using vq by (auto simp: is_zero_iff)
  have "divide_assign a x
        = (let (this2, sub', result') = divide_loop (degree + 1) this1 ?Z pfx;
               this3 = BigInteger_string result';
               this4 = this3\<lparr>a_digits := delete_trailing_zeroes (a_digits this3)\<rparr>
           in Some (if is_zero this4 then this4\<lparr>sign := plus_sign\<rparr> else this4))"
    unfolding divide_assign_def Let_def deg xz toString_zero this1_def pfx_def neg_def
    using ane by (simp add: assms(2) sub del: divide_loop.simps)
  also have "\<dots> = (let this4 = q\<lparr>a_digits := delete_trailing_zeroes (a_digits q)\<rparr>
           in Some (if is_zero this4 then this4\<lparr>sign := plus_sign\<rparr> else this4))"
    by (simp only: loop Let_def prod.case q)
  also have "\<dots> = Some q"
    using dq nz by (simp add: dtz_id)
  finally show "divide_assign a x = Some q" .
  show "canonical q"
    using dq nz by (simp add: canonical_def)
  show "value_of q = (if neg then - 1 else 1) * (10 ^ (2 * length (a_digits a) + 1) - 1)"
    using vq sq by (simp add: value_of_def degree_def)
qed


subsection \<open>Multiplication is symmetric in its operands\<close>

lemma sign_mul_commute: "sign_mul s t = sign_mul t s"
  by (auto simp: sign_mul_def)

lemma times_assign_commute: "times_assign a b = times_assign b a"
proof -
  have m: "max (length (a_digits a)) (length (a_digits b)) = max (length (a_digits b)) (length (a_digits a))"
    by (rule max.commute)
  have p: "(\<lambda>i. u ! i * v ! i) = (\<lambda>i. v ! i * u ! i)" for u v :: "complex list"
    by (simp add: mult.commute)
  show ?thesis
    unfolding times_assign_def Let_def m sign_mul_commute [of "sign a" "sign b"]
    by (simp only: mult.commute)
qed


section \<open>The multiplication\<close>

subsection \<open>Roots of unity\<close>

lemma tw_zero [simp]: "tw \<sigma> L 0 = 1"
  by (simp add: tw_def)

lemma tw_add: "tw \<sigma> L (e1 + e2) = tw \<sigma> L e1 * tw \<sigma> L e2"
  by (simp add: tw_def cis_mult algebra_simps add_divide_distrib)

lemma tw_double: "tw \<sigma> (2 * L) (2 * e) = tw \<sigma> L e"
proof -
  have "2 * pi * real (2 * e) / real (2 * L) = 2 * pi * real e / real L"
    by simp
  then show ?thesis
    unfolding tw_def by (rule arg_cong)
qed

lemma cis_sign_2pi: "\<sigma> = 1 \<or> \<sigma> = - 1 \<Longrightarrow> cis (\<sigma> * (2 * pi * real e)) = 1"
proof -
  assume s: "\<sigma> = 1 \<or> \<sigma> = - 1"
  have p: "cis (2 * pi * real e) = 1"
    by (rule cis_multiple_2pi) simp
  have "cis (- (2 * pi * real e)) = inverse (cis (2 * pi * real e))"
    by (rule cis_inverse [symmetric])
  then have "cis (- (2 * pi * real e)) = 1"
    by (simp only: p inverse_1)
  then show ?thesis
    using s p by auto
qed

lemma tw_full: "0 < L \<Longrightarrow> \<sigma> = 1 \<or> \<sigma> = - 1 \<Longrightarrow> tw \<sigma> L (L * e) = 1"
proof -
  assume L: "0 < L" and s: "\<sigma> = 1 \<or> \<sigma> = - 1"
  have "2 * pi * real (L * e) / real L = 2 * pi * real e"
    using L by simp
  then show ?thesis
    unfolding tw_def using cis_sign_2pi [OF s, of e] by simp
qed

lemma tw_half: "0 < L \<Longrightarrow> \<sigma> = 1 \<or> \<sigma> = - 1 \<Longrightarrow> tw \<sigma> (2 * L) L = - 1"
proof -
  assume L: "0 < L" and s: "\<sigma> = 1 \<or> \<sigma> = - 1"
  have "cis (- pi) = inverse (cis pi)"
    by (simp del: cis_pi)
  then have "cis (- pi) = - 1"
    by simp
  then show ?thesis
    using L s by (auto simp: tw_def)
qed

lemma tw_power: "tw \<sigma> L 1 ^ j = tw \<sigma> L j"
  by (simp add: tw_def DeMoivre algebra_simps)

subsection \<open>Splitting a transform into its even and odd halves\<close>

lemma sum_even_odd:
  fixes f :: "nat \<Rightarrow> complex"
  shows "(\<Sum>j<2 * L. f j) = (\<Sum>j<L. f (2 * j)) + (\<Sum>j<L. f (2 * j + 1))"
  by (induction L) (simp_all add: algebra_simps)

lemma DFT_split:
  "DFT \<sigma> (2 * L) y m
   = DFT \<sigma> L (\<lambda>j. y (2 * j)) m + tw \<sigma> (2 * L) m * DFT \<sigma> L (\<lambda>j. y (2 * j + 1)) m"
proof -
  have e: "tw \<sigma> (2 * L) (2 * j * m) = tw \<sigma> L (j * m)" for j
    using tw_double [of \<sigma> L "j * m"] by (simp add: mult.assoc)
  have o: "tw \<sigma> (2 * L) ((2 * j + 1) * m) = tw \<sigma> (2 * L) m * tw \<sigma> L (j * m)" for j
    using tw_add [of \<sigma> "2 * L" "2 * j * m" m] e [of j] by (simp add: algebra_simps)
  show ?thesis
    unfolding DFT_def sum_even_odd e o by (simp add: sum_distrib_left algebra_simps)
qed

lemma DFT_shift:
  assumes "0 < L" "\<sigma> = 1 \<or> \<sigma> = - 1"
  shows "DFT \<sigma> L y (m + L) = DFT \<sigma> L y m"
proof -
  have "tw \<sigma> L (j * (m + L)) = tw \<sigma> L (j * m)" for j
    using tw_add [of \<sigma> L "j * m" "L * j"] tw_full [OF assms, of j] by (simp add: algebra_simps)
  then show ?thesis
    by (simp add: DFT_def)
qed

lemma DFT_split_high:
  assumes "0 < L" "\<sigma> = 1 \<or> \<sigma> = - 1"
  shows "DFT \<sigma> (2 * L) y (m + L)
   = DFT \<sigma> L (\<lambda>j. y (2 * j)) m - tw \<sigma> (2 * L) m * DFT \<sigma> L (\<lambda>j. y (2 * j + 1)) m"
proof -
  have "tw \<sigma> (2 * L) (m + L) = - tw \<sigma> (2 * L) m"
    using tw_add [of \<sigma> "2 * L" m L] tw_half [OF assms] by simp
  then show ?thesis
    using DFT_split [of \<sigma> L y "m + L"] by (simp add: DFT_shift [OF assms])
qed

subsection \<open>Orthogonality\<close>

lemma tw_sum:
  assumes "0 < n" "\<sigma> = 1 \<or> \<sigma> = - 1"
  shows "(\<Sum>k<n. tw \<sigma> n (k * d)) = (if n dvd d then of_nat n else 0)"
proof (cases "n dvd d")
  case True
  then obtain c where "d = n * c" ..
  then have "tw \<sigma> n (k * d) = 1" for k
    using tw_full [OF assms, of "k * c"] by (simp add: algebra_simps)
  then show ?thesis
    using True by simp
next
  case False
  define z where "z = tw \<sigma> n d"
  have zp: "tw \<sigma> n (k * d) = z ^ k" for k
    by (simp add: z_def tw_def DeMoivre algebra_simps)
  have zn: "z ^ n = 1"
    using zp [of n, symmetric] tw_full [OF assms, of d] by simp
  have "z \<noteq> 1"
  proof
    assume "z = 1"
    then have "cos (\<sigma> * (2 * pi * real d / real n)) = 1"
      by (simp add: z_def tw_def cis.ctr complex_eq_iff one_complex.code)
    then obtain c :: int where c: "\<sigma> * (2 * pi * real d / real n) = real_of_int c * 2 * pi"
      using cos_one_2pi_int by blast
    then have "\<sigma> * real d = real_of_int c * real n"
      using assms(1) by (simp add: field_simps)
    then have "\<bar>\<sigma> * real d\<bar> = \<bar>real_of_int c * real n\<bar>"
      by (simp only:)
    then have "real d = real_of_int (\<bar>c\<bar>) * real n"
      using assms(2) by (auto simp: abs_mult)
    then have "int d = \<bar>c\<bar> * int n"
      by (metis (mono_tags, opaque_lifting) of_int_eq_iff of_int_mult of_int_of_nat_eq)
    then have "d = nat \<bar>c\<bar> * n"
      by (metis abs_ge_zero nat_int nat_mult_distrib of_nat_0_le_iff)
    with False show False
      by simp
  qed
  then have "(\<Sum>k<n. z ^ k) = (z ^ n - 1) / (z - 1)"
    by (rule geometric_sum)
  then show ?thesis
    using False by (simp add: zp zn)
qed

subsection \<open>One stage of butterflies\<close>

lemma butterfly_loop:
  assumes "i + len \<le> length a" "J \<le> len div 2"
  shows "\<exists>a'. fold (butterfly_step w len i) [0..<J] (a, 1) = (a', w ^ J) \<and> length a' = length a
           \<and> (\<forall>p < length a. a' ! p =
                 (if i \<le> p \<and> p < i + J then a ! p + a ! (p + len div 2) * w ^ (p - i)
                  else if i + len div 2 \<le> p \<and> p < i + len div 2 + J
                       then a ! (p - len div 2) - a ! p * w ^ (p - i - len div 2)
                  else a ! p))"
  using assms(2)
proof (induction J)
  case 0
  then show ?case by auto
next
  case (Suc J)
  define h where "h = len div 2"
  have J: "J < h" "i + J + h < length a" "i + J < length a"
    using Suc.prems assms(1) by (simp_all add: h_def)
  obtain a' where ih: "fold (butterfly_step w len i) [0..<J] (a, 1) = (a', w ^ J)"
      "length a' = length a"
      "\<forall>p < length a. a' ! p =
                 (if i \<le> p \<and> p < i + J then a ! p + a ! (p + h) * w ^ (p - i)
                  else if i + h \<le> p \<and> p < i + h + J
                       then a ! (p - h) - a ! p * w ^ (p - i - h)
                  else a ! p)"
    using Suc unfolding h_def by auto
  have u: "a' ! (i + J) = a ! (i + J)" and v: "a' ! (i + J + h) = a ! (i + J + h)"
    using ih(3) J by simp_all
  define a'' where "a'' = a'[i + J := a ! (i + J) + a ! (i + J + h) * w ^ J,
                              i + J + h := a ! (i + J) - a ! (i + J + h) * w ^ J]"
  have step: "fold (butterfly_step w len i) [0..<Suc J] (a, 1) = (a'', w ^ Suc J)"
    by (simp add: ih(1) butterfly_step_def Let_def u v a''_def h_def [symmetric])
  have len: "length a'' = length a"
    by (simp add: a''_def ih(2))
  have nth: "a'' ! p =
                 (if i \<le> p \<and> p < i + Suc J then a ! p + a ! (p + h) * w ^ (p - i)
                  else if i + h \<le> p \<and> p < i + h + Suc J
                       then a ! (p - h) - a ! p * w ^ (p - i - h)
                  else a ! p)" if p: "p < length a" for p
  proof -
    consider "p = i + J" | "p = i + J + h" | "p \<noteq> i + J" "p \<noteq> i + J + h"
      by blast
    then show ?thesis
    proof cases
      case 1
      then show ?thesis
        using J ih(2) by (simp add: a''_def)
    next
      case 2
      then show ?thesis
        using J ih(2) by (simp add: a''_def)
    next
      case 3
      then have "a'' ! p = a' ! p"
        by (simp add: a''_def)
      also have "\<dots> = (if i \<le> p \<and> p < i + J then a ! p + a ! (p + h) * w ^ (p - i)
                  else if i + h \<le> p \<and> p < i + h + J
                       then a ! (p - h) - a ! p * w ^ (p - i - h)
                  else a ! p)"
        using ih(3) p by simp
      finally show ?thesis
        using 3 by (auto simp: less_Suc_eq)
    qed
  qed
  show ?case
    unfolding h_def [symmetric] using step len nth by blast
qed

lemma butterfly_block:
  assumes "i + len \<le> length a" "even len"
  shows "\<exists>a'. fst (fold (butterfly_step w len i) [0..<len div 2] (a, 1)) = a' \<and> length a' = length a
           \<and> (\<forall>p < length a. a' ! p =
                 (if i \<le> p \<and> p < i + len
                  then (if p - i < len div 2 then a ! p + a ! (p + len div 2) * w ^ (p - i)
                        else a ! (p - len div 2) - a ! p * w ^ (p - i - len div 2))
                  else a ! p))"
proof -
  obtain a' where r: "fold (butterfly_step w len i) [0..<len div 2] (a, 1) = (a', w ^ (len div 2))"
      "length a' = length a"
      "\<forall>p < length a. a' ! p =
                 (if i \<le> p \<and> p < i + len div 2 then a ! p + a ! (p + len div 2) * w ^ (p - i)
                  else if i + len div 2 \<le> p \<and> p < i + len div 2 + len div 2
                       then a ! (p - len div 2) - a ! p * w ^ (p - i - len div 2)
                  else a ! p)"
    using butterfly_loop [OF assms(1) order_refl, of w] by blast
  have e: "len div 2 + len div 2 = len"
    using assms(2) by (simp add: mult_2 [symmetric])
  have "a' ! p = (if i \<le> p \<and> p < i + len
                  then (if p - i < len div 2 then a ! p + a ! (p + len div 2) * w ^ (p - i)
                        else a ! (p - len div 2) - a ! p * w ^ (p - i - len div 2))
                  else a ! p)" if "p < length a" for p
    using r(3) that e by auto
  then show ?thesis
    using r(1,2) by simp
qed

lemma mod_in_block: "B * len \<le> p \<Longrightarrow> p < B * len + len \<Longrightarrow> p mod len = p - B * (len :: nat)"
proof -
  assume a: "B * len \<le> p" "p < B * len + len"
  then have "p = (p - B * len) + B * len" and l: "p - B * len < len"
    by simp_all
  then have "p mod len = ((p - B * len) + B * len) mod len"
    by simp
  also have "\<dots> = (p - B * len) mod len"
    by simp
  finally show ?thesis
    using l by simp
qed

lemma block_loop:
  assumes "length a = n" "even len" "B * len \<le> n"
  shows "\<exists>a'. fold (\<lambda>i a. fst (fold (butterfly_step w len i) [0..<len div 2] (a, 1)))
                (map (\<lambda>k. k * len) [0..<B]) a = a' \<and> length a' = n
           \<and> (\<forall>p < n. a' ! p = (if p < B * len then stage_fun w len a p else a ! p))"
  using assms(3)
proof (induction B)
  case 0
  then show ?case using assms(1) by simp
next
  case (Suc B)
  define h where "h = len div 2"
  let ?blk = "\<lambda>i a. fst (fold (butterfly_step w len i) [0..<len div 2] (a, 1))"
  obtain a' where ih: "fold ?blk (map (\<lambda>k. k * len) [0..<B]) a = a'" "length a' = n"
      "\<forall>p < n. a' ! p = (if p < B * len then stage_fun w len a p else a ! p)"
    using Suc by auto
  have fit: "B * len + len \<le> length a'"
    using Suc.prems ih(2) by (simp add: algebra_simps)
  obtain a'' where bl: "?blk (B * len) a' = a''" "length a'' = length a'"
      "\<forall>p < length a'. a'' ! p =
                 (if B * len \<le> p \<and> p < B * len + len
                  then (if p - B * len < h then a' ! p + a' ! (p + h) * w ^ (p - B * len)
                        else a' ! (p - h) - a' ! p * w ^ (p - B * len - h))
                  else a' ! p)"
    using butterfly_block [OF fit assms(2), of w] unfolding h_def by blast
  have hh: "h + h = len"
    using assms(2) by (simp add: h_def mult_2 [symmetric])
  have step: "fold ?blk (map (\<lambda>k. k * len) [0..<Suc B]) a = a''"
    by (simp add: ih(1) bl(1))
  have nth: "a'' ! p = (if p < Suc B * len then stage_fun w len a p else a ! p)" if p: "p < n" for p
  proof (cases "B * len \<le> p \<and> p < B * len + len")
    case True
    then have m: "p mod len = p - B * len"
      by (simp add: mod_in_block)
    show ?thesis
    proof (cases "p - B * len < h")
      case lo: True
      have "p + h < n"
        using lo True hh fit ih(2) by linarith
      then have "a' ! p = a ! p" "a' ! (p + h) = a ! (p + h)"
        using ih(3) p True by simp_all
      then show ?thesis
        using bl(3) p ih(2) True lo by (simp add: stage_fun_def m h_def)
    next
      case hi: False
      have "B * len \<le> p - h" "p - h < n"
        using hi True p by linarith+
      then have "a' ! p = a ! p" "a' ! (p - h) = a ! (p - h)"
        using ih(3) p True by simp_all
      then show ?thesis
        using bl(3) p ih(2) True hi by (simp add: stage_fun_def m h_def)
    qed
  next
    case False
    then have nb: "(B * len \<le> p \<and> p < B * len + len) = False"
      by simp
    have "a'' ! p = a' ! p"
      using bl(3) p ih(2) by (simp add: nb)
    moreover have "p < Suc B * len \<longleftrightarrow> p < B * len"
      using False by auto
    ultimately show ?thesis
      using ih(3) p by simp
  qed
  show ?case
    using step bl(2) ih(2) nth by simp
qed

lemma block_starts_dvd: "0 < len \<Longrightarrow> len dvd n \<Longrightarrow> block_starts n len = map (\<lambda>k. k * len) [0..<n div len]"
proof -
  assume l: "0 < len" and d: "len dvd n"
  from d obtain c where c: "n = len * c" ..
  have "(len * c + len - 1) div len = c"
  proof -
    have e: "len * c + len - 1 = (len - 1) + c * len"
      using l by (simp add: algebra_simps)
    have ne: "len \<noteq> 0"
      using l by simp
    have z: "(len - 1) div len = 0"
      using l by simp
    have "((len - 1) + c * len) div len = c + (len - 1) div len"
      by (rule div_mult_self1 [OF ne])
    then show ?thesis
      unfolding e z by (simp only: add_0_right)
  qed
  then show ?thesis
    using l by (simp add: block_starts_def c)
qed

lemma fft_stage_nth:
  assumes "length a = n" "len dvd n" "even len" "0 < len"
    and \<sigma>_def: "\<sigma> = (if invert then - 1 else 1 :: real)"
  shows "length (fft_stage invert n len a) = n"
    and "\<forall>p < n. fft_stage invert n len a ! p = stage_fun (tw \<sigma> len 1) len a p"
proof -
  have w: "Complex (cos (2 * pi / real len * (if invert then - 1 else 1)))
                   (sin (2 * pi / real len * (if invert then - 1 else 1))) = tw \<sigma> len 1"
    by (simp add: tw_def \<sigma>_def cis.code algebra_simps)
  have full: "n div len * len \<le> n"
    by simp
  obtain a' where r: "fold (\<lambda>i a. fst (fold (butterfly_step (tw \<sigma> len 1) len i) [0..<len div 2] (a, 1)))
                (map (\<lambda>k. k * len) [0..<n div len]) a = a'" "length a' = n"
      "\<forall>p < n. a' ! p = (if p < n div len * len then stage_fun (tw \<sigma> len 1) len a p else a ! p)"
    using block_loop [OF assms(1,3) full, of "tw \<sigma> len 1"] by blast
  have res: "fft_stage invert n len a = a'"
    unfolding fft_stage_def Let_def w block_starts_dvd [OF assms(4,2)] by (rule r(1))
  have "n div len * len = n"
    using assms(2) by simp
  then show "length (fft_stage invert n len a) = n"
    and "\<forall>p < n. fft_stage invert n len a ! p = stage_fun (tw \<sigma> len 1) len a p"
    using r(2,3) by (simp_all add: res)
qed

subsection \<open>Bit reversal\<close>

lemma brev_less: "brev k i < 2 ^ k"
proof (induction k arbitrary: i)
  case 0
  then show ?case by simp
next
  case (Suc k)
  have "i mod 2 \<le> 1"
    by simp
  then have "2 ^ k * (i mod 2) \<le> (2::nat) ^ k * 1"
    by (intro mult_le_mono) simp_all
  then have "2 ^ k * (i mod 2) \<le> (2::nat) ^ k"
    by simp
  with Suc [of "i div 2"] show ?case
    unfolding brev.simps power_Suc by linarith
qed

lemma brev_even: "brev (Suc k) (2 * b) = brev k b"
  by simp

lemma brev_odd: "brev (Suc k) (2 * b + 1) = 2 ^ k + brev k b"
  by simp

lemma brev_top: "l < 2 ^ k \<Longrightarrow> h < 2 \<Longrightarrow> brev (Suc k) (h * 2 ^ k + l) = 2 * brev k l + h"
proof (induction k arbitrary: l)
  case 0
  then show ?case by simp
next
  case (Suc k)
  have e: "h * 2 ^ Suc k + l = 2 * (h * 2 ^ k) + l"
    by simp
  have d: "(h * 2 ^ Suc k + l) div 2 = h * 2 ^ k + l div 2"
    unfolding e by simp
  have m: "(h * 2 ^ Suc k + l) mod 2 = l mod 2"
    unfolding e by simp
  have "l div 2 < 2 ^ k"
    using Suc.prems(1) by simp
  then have ih: "brev (Suc k) (h * 2 ^ k + l div 2) = 2 * brev k (l div 2) + h"
    using Suc.IH Suc.prems(2) by simp
  have "brev (Suc (Suc k)) (h * 2 ^ Suc k + l)
        = 2 ^ Suc k * (l mod 2) + brev (Suc k) (h * 2 ^ k + l div 2)"
    by (subst brev.simps(2)) (simp only: d m)
  also have "\<dots> = 2 ^ Suc k * (l mod 2) + (2 * brev k (l div 2) + h)"
    by (simp only: ih)
  also have "\<dots> = 2 * brev (Suc k) l + h"
    by simp
  finally show ?case .
qed

lemma brev_involution: "i < 2 ^ k \<Longrightarrow> brev k (brev k i) = i"
proof (induction k arbitrary: i)
  case 0
  then show ?case by simp
next
  case (Suc k)
  have h: "i mod 2 < 2" and l: "brev k (i div 2) < 2 ^ k"
    by (simp_all add: brev_less)
  have "i div 2 < 2 ^ k"
    using Suc.prems by simp
  then have ih: "brev k (brev k (i div 2)) = i div 2"
    by (rule Suc.IH)
  have "brev (Suc k) (brev (Suc k) i) = brev (Suc k) ((i mod 2) * 2 ^ k + brev k (i div 2))"
    by (simp add: mult.commute)
  also have "\<dots> = 2 * brev k (brev k (i div 2)) + i mod 2"
    by (rule brev_top [OF l h])
  also have "\<dots> = i"
    by (simp add: ih)
  finally show ?case .
qed

subsection \<open>The stages compute the transform of the bit-reversed input\<close>

lemma stage_inv_step:
  assumes "stage_inv \<sigma> k x t a" "t < k" "\<sigma> = (if invert then - 1 else 1)"
  shows "stage_inv \<sigma> k x (Suc t) (fft_stage invert (2 ^ k) (2 ^ Suc t) a)"
proof -
  define L :: nat where "L = 2 ^ t"
  define q where "q = k - Suc t"
  have kt: "k - t = Suc q" "k = Suc t + q"
    using assms(2) by (simp_all add: q_def)
  have Lpos: "0 < L"
    by (simp add: L_def)
  have s: "\<sigma> = 1 \<or> \<sigma> = - 1"
    using assms(3) by auto
  have len: "length a = 2 ^ k"
    and inv: "\<And>b m. b < 2 ^ Suc q \<Longrightarrow> m < L \<Longrightarrow>
           a ! (b * L + m) = DFT \<sigma> L (\<lambda>j. x (j * 2 ^ Suc q + brev (Suc q) b)) m"
    using assms(1) unfolding stage_inv_def kt(1) L_def by auto
  have dv: "(2::nat) ^ Suc t dvd 2 ^ k"
    using assms(2) by (intro le_imp_power_dvd) simp
  note st = fft_stage_nth [OF len dv _ _ assms(3)]
  have l1: "length (fft_stage invert (2 ^ k) (2 ^ Suc t) a) = 2 ^ k"
    using st(1) by simp
  have nth: "fft_stage invert (2 ^ k) (2 ^ Suc t) a ! p = stage_fun (tw \<sigma> (2 * L) 1) (2 * L) a p"
    if "p < 2 ^ k" for p
    using st(2) that by (simp add: L_def)
  have main: "fft_stage invert (2 ^ k) (2 ^ Suc t) a ! (b * 2 ^ Suc t + m)
              = DFT \<sigma> (2 ^ Suc t) (\<lambda>j. x (j * 2 ^ (k - Suc t) + brev (k - Suc t) b)) m"
    if b: "b < 2 ^ (k - Suc t)" and m: "m < 2 ^ Suc t" for b m
  proof -
    define y where "y = (\<lambda>j. x (j * 2 ^ q + brev q b))"
    have ev: "(\<lambda>j. x (j * 2 ^ Suc q + brev (Suc q) (2 * b))) = (\<lambda>j. y (2 * j))"
      by (simp only: brev_even y_def) (simp add: algebra_simps)
    have od: "(\<lambda>j. x (j * 2 ^ Suc q + brev (Suc q) (2 * b + 1))) = (\<lambda>j. y (2 * j + 1))"
      by (simp only: brev_odd y_def) (simp add: algebra_simps)
    have b2: "2 * b < 2 ^ Suc q" "2 * b + 1 < 2 ^ Suc q"
      using b by (simp_all add: q_def)
    have m2: "m < 2 * L"
      using m by (simp add: L_def)
    define p where "p = b * (2 * L) + m"
    have "p < 2 ^ q * (2 * L)"
    proof -
      have "p < (b + 1) * (2 * L)"
        using m2 by (simp add: p_def)
      also have "\<dots> \<le> 2 ^ q * (2 * L)"
        using b by (intro mult_le_mono1) (simp add: q_def)
      finally show ?thesis .
    qed
    also have "2 ^ q * (2 * L) = (2::nat) ^ k"
      by (simp add: L_def kt(2) power_add)
    finally have pk: "p < 2 ^ k" .
    have pm: "p mod (2 * L) = m"
      using m2 by (simp add: p_def)
    have hl: "(2 * L) div 2 = L"
      by simp
    have goal: "stage_fun (tw \<sigma> (2 * L) 1) (2 * L) a p = DFT \<sigma> (2 * L) y m"
    proof (cases "m < L")
      case True
      have e0: "p = (2 * b) * L + m" and e1: "p + L = (2 * b + 1) * L + m"
        by (simp_all add: p_def algebra_simps)
      have a0: "a ! p = DFT \<sigma> L (\<lambda>j. y (2 * j)) m"
        unfolding e0 using inv [OF b2(1) True] by (simp only: ev)
      have a1: "a ! (p + L) = DFT \<sigma> L (\<lambda>j. y (2 * j + 1)) m"
        unfolding e1 using inv [OF b2(2) True] by (simp only: od)
      have "stage_fun (tw \<sigma> (2 * L) 1) (2 * L) a p
            = a ! p + a ! (p + L) * tw \<sigma> (2 * L) 1 ^ m"
        using True by (simp add: stage_fun_def pm)
      also have "\<dots> = DFT \<sigma> L (\<lambda>j. y (2 * j)) m
                        + tw \<sigma> (2 * L) m * DFT \<sigma> L (\<lambda>j. y (2 * j + 1)) m"
        by (simp only: a0 a1 tw_power mult.commute)
      also have "\<dots> = DFT \<sigma> (2 * L) y m"
        by (rule DFT_split [symmetric])
      finally show ?thesis .
    next
      case False
      define m' where "m' = m - L"
      have m': "m' < L" "m = m' + L"
        using False m2 by (simp_all add: m'_def)
      have e0: "p - L = (2 * b) * L + m'" and e1: "p = (2 * b + 1) * L + m'"
        using m'(2) by (simp_all add: p_def algebra_simps)
      have a0: "a ! (p - L) = DFT \<sigma> L (\<lambda>j. y (2 * j)) m'"
        unfolding e0 using inv [OF b2(1) m'(1)] by (simp only: ev)
      have a1: "a ! p = DFT \<sigma> L (\<lambda>j. y (2 * j + 1)) m'"
        using inv [OF b2(2) m'(1)] unfolding e1 [symmetric] by (simp only: od)
      have "stage_fun (tw \<sigma> (2 * L) 1) (2 * L) a p
            = a ! (p - L) - a ! p * tw \<sigma> (2 * L) 1 ^ m'"
        using False by (simp add: stage_fun_def pm m'_def)
      also have "\<dots> = DFT \<sigma> L (\<lambda>j. y (2 * j)) m'
                        - tw \<sigma> (2 * L) m' * DFT \<sigma> L (\<lambda>j. y (2 * j + 1)) m'"
        by (simp only: a0 a1 tw_power mult.commute)
      also have "\<dots> = DFT \<sigma> (2 * L) y (m' + L)"
        by (rule DFT_split_high [OF Lpos s, symmetric])
      finally show ?thesis
        by (simp add: m'(2))
    qed
    have "fft_stage invert (2 ^ k) (2 ^ Suc t) a ! (b * 2 ^ Suc t + m)
          = stage_fun (tw \<sigma> (2 * L) 1) (2 * L) a p"
      using nth [OF pk] by (simp add: p_def L_def)
    also note goal
    finally show ?thesis
      by (simp add: y_def q_def L_def)
  qed
  show ?thesis
    unfolding stage_inv_def using l1 main by blast
qed

subsection \<open>All stages\<close>

lemma fft_stages_correct:
  assumes "stage_inv \<sigma> k x t a" "t \<le> k" "\<sigma> = (if invert then - 1 else 1)"
  shows "stage_inv \<sigma> k x k (fft_stages invert (2 ^ k) (2 ^ Suc t) a)"
  using assms(1,2)
proof (induction "k - t" arbitrary: t a)
  case 0
  then have "t = k"
    by simp
  then have "fft_stages invert (2 ^ k) (2 ^ Suc t) a = a"
    by (subst fft_stages.simps) simp
  with 0 \<open>t = k\<close> show ?case
    by simp
next
  case (Suc d)
  then have t: "t < k" and d: "d = k - Suc t"
    by simp_all
  have le: "(2::nat) ^ Suc t \<le> 2 ^ k"
    using t by (intro power_increasing) simp_all
  have "fft_stages invert (2 ^ k) (2 ^ Suc t) a
        = fft_stages invert (2 ^ k) (2 ^ Suc (Suc t)) (fft_stage invert (2 ^ k) (2 ^ Suc t) a)"
    using le by (subst fft_stages.simps) (simp add: push_bit_eq_mult)
  moreover have "stage_inv \<sigma> k x k
      (fft_stages invert (2 ^ k) (2 ^ Suc (Suc t)) (fft_stage invert (2 ^ k) (2 ^ Suc t) a))"
    using Suc.hyps(1) [OF d stage_inv_step [OF Suc.prems(1) t assms(3)]] t by simp
  ultimately show ?case
    by simp
qed

subsection \<open>The loop that reverses the bits of the index\<close>

lemma bit_top: "j < 2 ^ Suc k \<Longrightarrow> bit j k \<longleftrightarrow> 2 ^ k \<le> (j::nat)"
proof -
  assume j: "j < 2 ^ Suc k"
  show ?thesis
  proof (cases "2 ^ k \<le> j")
    case True
    have "j div 2 ^ k = 1"
      using True j by (intro div_nat_eqI) simp_all
    then show ?thesis
      using True by (simp add: bit_iff_odd)
  next
    case False
    then have "j div 2 ^ k = 0"
      by simp
    then show ?thesis
      using False by (simp add: bit_iff_odd)
  qed
qed

lemma xor_pow2: "(j::nat) XOR 2 ^ k = (if bit j k then j - 2 ^ k else j + 2 ^ k)"
proof -
  have "int (j XOR 2 ^ k) = flip_bit k (int j)"
    by (simp add: flip_bit_eq_xor of_nat_xor_eq)
  also have "\<dots> = (if bit j k then int j - 2 ^ k else int j + 2 ^ k)"
    by (simp add: flip_bit_eq_if set_bit_eq unset_bit_eq bit_of_nat_iff_bit)
  finally have e: "int (j XOR 2 ^ k) = (if bit j k then int j - 2 ^ k else int j + 2 ^ k)" .
  show ?thesis
  proof (cases "bit j k")
    case True
    with e have i: "int (j XOR 2 ^ k) = int j - 2 ^ k"
      by simp
    have "0 \<le> int (j XOR 2 ^ k)"
      by simp
    then have "int (2 ^ k) \<le> int j"
      using i by simp
    then have ge: "2 ^ k \<le> j"
      by (simp only: of_nat_le_iff)
    then have "int (j XOR 2 ^ k) = int (j - 2 ^ k)"
      using i by (simp add: of_nat_diff)
    then have "j XOR 2 ^ k = j - 2 ^ k"
      by (simp only: of_nat_eq_iff)
    then show ?thesis
      using True by simp
  next
    case False
    with e have "int (j XOR 2 ^ k) = int (j + 2 ^ k)"
      by simp
    then show ?thesis
      using False by (simp only: of_nat_eq_iff if_False)
  qed
qed

lemma carry_test: "(NOT (int j) AND int (2 ^ k) \<noteq> 0) \<longleftrightarrow> \<not> bit j k"
proof -
  have "NOT (int j) AND 2 ^ k = 0 \<longleftrightarrow> \<not> bit (NOT (int j)) k"
    by (rule and_exp_eq_0_iff_not_bit)
  then show ?thesis
    by (simp add: bit_not_int_iff bit_of_nat_iff_bit)
qed

lemma reverse_increment_low:
  "\<not> bit j k \<Longrightarrow> reverse_increment (2 ^ Suc k) j = j + 2 ^ k"
proof -
  assume nb: "\<not> bit j k"
  have d: "drop_bit 1 ((2::nat) ^ Suc k) = 2 ^ k"
    by (simp add: drop_bit_eq_div)
  have x: "j XOR 2 ^ k = j + 2 ^ k"
    using nb by (simp add: xor_pow2)
  have "bit (j XOR 2 ^ k) k"
    using nb by (simp add: bit_xor_iff bit_exp_iff)
  then have "\<not> (NOT (int (j + 2 ^ k)) AND int (2 ^ k) \<noteq> 0)"
    unfolding carry_test x by simp
  then show ?thesis
    by (subst reverse_increment.simps) (simp only: d x Let_def if_False)
qed

lemma reverse_increment_high:
  "bit j k \<Longrightarrow> reverse_increment (2 ^ Suc k) j = reverse_increment (2 ^ k) (j - 2 ^ k)"
proof -
  assume b: "bit j k"
  have d: "drop_bit 1 ((2::nat) ^ Suc k) = 2 ^ k"
    by (simp add: drop_bit_eq_div)
  have x: "j XOR 2 ^ k = j - 2 ^ k"
    using b by (simp add: xor_pow2)
  have "\<not> bit (j XOR 2 ^ k) k"
    using b by (simp add: bit_xor_iff bit_exp_iff)
  then have "NOT (int (j - 2 ^ k)) AND int (2 ^ k) \<noteq> 0"
    unfolding carry_test x by simp
  then show ?thesis
    by (subst reverse_increment.simps) (simp only: d x Let_def if_True not_False_eq_True)
qed

lemma reverse_increment_brev:
  "Suc i < 2 ^ k \<Longrightarrow> reverse_increment (2 ^ k) (brev k i) = brev k (Suc i)"
proof (induction k arbitrary: i)
  case 0
  then show ?case by simp
next
  case (Suc k)
  have bl: "brev k (i div 2) < 2 ^ k"
    by (rule brev_less)
  show ?case
  proof (cases "even i")
    case True
    then have j: "brev (Suc k) i = brev k (i div 2)"
      by simp
    have "\<not> bit (brev k (i div 2)) k"
      using bl by (simp add: bit_top)
    then have "reverse_increment (2 ^ Suc k) (brev (Suc k) i) = brev k (i div 2) + 2 ^ k"
      unfolding j by (rule reverse_increment_low)
    also have "\<dots> = brev (Suc k) (Suc i)"
      using True by (simp add: mod_Suc div_Suc even_iff_mod_2_eq_zero)
    finally show ?thesis .
  next
    case False
    then have j: "brev (Suc k) i = 2 ^ k + brev k (i div 2)"
      by (simp add: odd_iff_mod_2_eq_one)
    have "2 ^ k + brev k (i div 2) < 2 ^ Suc k"
      using bl by simp
    then have "bit (2 ^ k + brev k (i div 2)) k"
      by (simp add: bit_top)
    then have "reverse_increment (2 ^ Suc k) (brev (Suc k) i)
               = reverse_increment (2 ^ k) (2 ^ k + brev k (i div 2) - 2 ^ k)"
      unfolding j by (rule reverse_increment_high)
    also have "\<dots> = reverse_increment (2 ^ k) (brev k (i div 2))"
      by simp
    also have "\<dots> = brev k (Suc (i div 2))"
    proof (rule Suc.IH)
      from False obtain c where c: "i = 2 * c + 1"
        by (rule oddE)
      then have "2 * (c + 1) < 2 * 2 ^ k"
        using Suc.prems by simp
      then have "c + 1 < 2 ^ k"
        by simp
      then show "Suc (i div 2) < 2 ^ k"
        by (simp add: c)
    qed
    also have "\<dots> = brev (Suc k) (Suc i)"
      using False by (simp add: odd_iff_mod_2_eq_one div_Suc)
    finally show ?thesis .
  qed
qed

lemma brev_zero [simp]: "brev k 0 = 0"
  by (induction k) simp_all

lemma brev_inj: "p < 2 ^ k \<Longrightarrow> q < 2 ^ k \<Longrightarrow> brev k p = brev k q \<Longrightarrow> p = q"
  by (metis brev_involution)

lemma permute_loop:
  assumes "length a = 2 ^ k" "Suc d < 2 ^ k"
  shows "\<exists>a'. fold (permute_step (2 ^ k)) [1..<Suc d] (a, 0) = (a', brev k d) \<and> length a' = 2 ^ k
           \<and> (\<forall>p < 2 ^ k. a' ! p = (if min p (brev k p) < Suc d then a ! brev k p else a ! p))"
  using assms(2)
proof (induction d)
  case 0
  have "a ! p = a ! brev k p" if "p < 2 ^ k" "min p (brev k p) < Suc 0" for p
  proof -
    from that(2) have "p = 0 \<or> brev k p = 0"
      by (auto simp: min_def split: if_splits)
    then have "p = 0"
      using brev_involution [OF that(1)] by auto
    then show ?thesis
      by simp
  qed
  then show ?case
    using assms(1) by auto
next
  case (Suc d)
  define M where "M = Suc d"
  define j where "j = brev k M"
  have M: "M < 2 ^ k" "Suc M < 2 ^ k"
    using Suc.prems by (simp_all add: M_def)
  have jl: "j < 2 ^ k"
    unfolding j_def by (rule brev_less)
  have jM: "brev k j = M"
    unfolding j_def by (rule brev_involution [OF M(1)])
  obtain a' where ih: "fold (permute_step (2 ^ k)) [1..<M] (a, 0) = (a', brev k d)"
      "length a' = 2 ^ k"
      "\<forall>p < 2 ^ k. a' ! p = (if min p (brev k p) < M then a ! brev k p else a ! p)"
    using Suc unfolding M_def by auto
  have ri: "reverse_increment (2 ^ k) (brev k d) = j"
    unfolding j_def M_def by (rule reverse_increment_brev) (use M(1) in \<open>simp add: M_def\<close>)
  define a'' where "a'' = (if M < j then a'[M := a' ! j, j := a' ! M] else a')"
  have "permute_step (2 ^ k) M (a', brev k d) = (a'', j)"
    by (simp add: permute_step_def ri Let_def a''_def)
  then have step: "fold (permute_step (2 ^ k)) [1..<Suc M] (a, 0) = (a'', brev k M)"
    using ih(1) by (simp add: j_def M_def)
  have len: "length a'' = 2 ^ k"
    by (simp add: a''_def ih(2))
  have aM: "a' ! M = (if j < M then a ! j else a ! M)"
    using ih(3) M(1) by (auto simp: j_def min_def)
  have aj: "a' ! j = (if j < M then a ! M else a ! j)"
    using ih(3) jl jM by (auto simp: min_def)
  have nth: "a'' ! p = (if min p (brev k p) < Suc M then a ! brev k p else a ! p)"
    if p: "p < 2 ^ k" for p
  proof -
    consider "p = M" | "p = j" "p \<noteq> M" | "p \<noteq> M" "p \<noteq> j"
      by blast
    then show ?thesis
    proof cases
      case 1
      have "a'' ! M = a ! j"
        using aM aj M(1) jl ih(2) by (auto simp: a''_def nth_list_update)
      then show ?thesis
        using 1 by (simp add: j_def [symmetric] min_def)
    next
      case 2
      have "a'' ! j = a ! M"
        using aM aj M(1) jl ih(2) 2 by (auto simp: a''_def nth_list_update)
      then show ?thesis
        using 2 jM by (simp add: min_def)
    next
      case 3
      have "brev k p \<noteq> M"
        using 3(2) brev_involution [OF p] by (auto simp: j_def)
      then have c: "min p (brev k p) < Suc M \<longleftrightarrow> min p (brev k p) < M"
        using 3(1) by (auto simp: min_def)
      have "a'' ! p = a' ! p"
        using 3 by (simp add: a''_def)
      then show ?thesis
        using ih(3) p c by simp
    qed
  qed
  show ?case
    unfolding M_def [symmetric] using step len nth by blast
qed

lemma cond_Complex_cis: "Complex (cos t) (sin t) = cis t"
  by (simp add: cis.code)

lemma FFT_correct:
  assumes "length a = 2 ^ k" "0 < k" "\<sigma> = (if invert then - 1 else 1)"
  shows "length (FFT a invert) = 2 ^ k"
    and "\<forall>m < 2 ^ k. FFT a invert ! m
           = (if invert then DFT \<sigma> (2 ^ k) (\<lambda>j. a ! j) m / of_nat (2 ^ k)
              else DFT \<sigma> (2 ^ k) (\<lambda>j. a ! j) m)"
proof -
  define n :: nat where "n = 2 ^ k"
  have n2: "2 \<le> n"
    using assms(2) self_le_power [of 2 k] by (simp add: n_def)
  then have d: "Suc (n - 2) < 2 ^ k" "Suc (n - 2) = n - 1"
    by (simp_all add: n_def)
  obtain a1 where p: "fold (permute_step (2 ^ k)) [1..<n - 1] (a, 0) = (a1, brev k (n - 2))"
      "length a1 = 2 ^ k"
      "\<forall>p < 2 ^ k. a1 ! p = (if min p (brev k p) < n - 1 then a ! brev k p else a ! p)"
    using permute_loop [OF assms(1) d(1)] unfolding d(2) by blast
  have a1: "a1 ! p = a ! brev k p" if "p < 2 ^ k" for p
  proof (cases "min p (brev k p) < n - 1")
    case True
    then show ?thesis
      using p(3) that by simp
  next
    case False
    then have "p = n - 1" "brev k p = n - 1"
      using that brev_less [of k p] by (simp_all add: n_def min_def split: if_splits)
    then show ?thesis
      using p(3) that by simp
  qed
  have inv0: "stage_inv \<sigma> k (\<lambda>j. a ! j) 0 a1"
    unfolding stage_inv_def using p(2) a1 by (simp add: DFT_def)
  define a2 where "a2 = fft_stages invert (2 ^ k) (2 ^ Suc 0) a1"
  have inv: "stage_inv \<sigma> k (\<lambda>j. a ! j) k a2"
    unfolding a2_def by (rule fft_stages_correct [OF inv0 _ assms(3)]) simp
  have l2: "length a2 = 2 ^ k"
    using inv unfolding stage_inv_def by simp
  have v2: "a2 ! m = DFT \<sigma> (2 ^ k) (\<lambda>j. a ! j) m" if "m < 2 ^ k" for m
  proof -
    have "(0::nat) < 2 ^ (k - k) \<and> m < 2 ^ k \<longrightarrow>
          a2 ! (0 * 2 ^ k + m) = DFT \<sigma> (2 ^ k) (\<lambda>j. a ! (j * 2 ^ (k - k) + brev (k - k) 0)) m"
      using inv unfolding stage_inv_def by blast
    then show ?thesis
      using that by simp
  qed
  have res: "FFT a invert = (if invert then map (\<lambda>z. z / of_nat (2 ^ k)) a2 else a2)"
    unfolding FFT_def Let_def assms(1) n_def [symmetric] using p(1)
    by (simp add: a2_def n_def)
  show "length (FFT a invert) = 2 ^ k"
    by (simp add: res l2)
  show "\<forall>m < 2 ^ k. FFT a invert ! m
           = (if invert then DFT \<sigma> (2 ^ k) (\<lambda>j. a ! j) m / of_nat (2 ^ k)
              else DFT \<sigma> (2 ^ k) (\<lambda>j. a ! j) m)"
    using v2 l2 by (simp add: res)
qed

subsection \<open>The convolution theorem\<close>

lemma tw_conj: "0 < n \<Longrightarrow> m \<le> n \<Longrightarrow> tw (- 1) n (k * m) = tw 1 n (k * (n - m))"
proof -
  assume n: "0 < n" and m: "m \<le> n"
  have one: "(1::real) = 1 \<or> (1::real) = - 1"
    by simp
  have "tw 1 n (k * (n - m)) * tw 1 n (k * m) = tw 1 n (k * (n - m) + k * m)"
    by (rule tw_add [symmetric])
  also have "k * (n - m) + k * m = n * k"
  proof -
    have "k * (n - m) + k * m = k * ((n - m) + m)"
      by (rule distrib_left [symmetric])
    also have "\<dots> = n * k"
      using m by (simp add: mult.commute)
    finally show ?thesis .
  qed
  also have "tw 1 n (n * k) = 1"
    by (rule tw_full [OF n one])
  finally have a: "tw 1 n (k * (n - m)) * tw 1 n (k * m) = 1" .
  have "tw (- 1) n (k * m) * tw 1 n (k * m) = 1"
    by (simp add: tw_def cis_mult)
  then have "tw (- 1) n (k * m) * tw 1 n (k * m) = tw 1 n (k * (n - m)) * tw 1 n (k * m)"
    using a by simp
  moreover have "tw 1 n (k * m) \<noteq> 0"
    by (simp add: tw_def)
  ultimately show ?thesis
    by simp
qed

lemma dvd_shift: "0 < n \<Longrightarrow> m < n \<Longrightarrow> n dvd (i + j + (n - m)) \<longleftrightarrow> (i + j) mod n = (m::nat)"
proof -
  assume n: "0 < n" and m: "m < n"
  have a: "(i + j + n) mod n = m mod n \<longleftrightarrow> n dvd (i + j + n - m)"
    using m by (intro mod_eq_dvd_iff_nat) simp
  have b: "i + j + n - m = i + j + (n - m)"
    using m by simp
  have c: "(i + j + n) mod n = (i + j) mod n"
    by simp
  have d: "m mod n = m"
    using m by simp
  show ?thesis
    unfolding b [symmetric] a [symmetric] c d ..
qed

lemma convolution_theorem:
  assumes "0 < n" "m < n"
  shows "DFT (- 1) n (\<lambda>k. DFT 1 n A k * DFT 1 n B k) m / of_nat n
         = (\<Sum>i<n. \<Sum>j<n. if (i + j) mod n = m then A i * B j else 0)"
proof -
  have one: "(1::real) = 1 \<or> (1::real) = - 1"
    by simp
  have t: "tw 1 n (i * k) * tw 1 n (j * k) * tw (- 1) n (k * m) = tw 1 n (k * (i + j + (n - m)))"
    for i j k
  proof -
    define r where "r = n - m"
    have "tw 1 n (i * k) * tw 1 n (j * k) * tw (- 1) n (k * m)
          = tw 1 n (i * k) * tw 1 n (j * k) * tw 1 n (k * r)"
      using assms by (simp add: tw_conj r_def)
    also have "\<dots> = tw 1 n (i * k + j * k + k * r)"
      by (simp only: tw_add)
    also have "i * k + j * k + k * r = k * (i + j + r)"
      by (simp add: algebra_simps)
    finally show ?thesis
      by (simp add: r_def)
  qed
  have "DFT (- 1) n (\<lambda>k. DFT 1 n A k * DFT 1 n B k) m
        = (\<Sum>k<n. (\<Sum>i<n. \<Sum>j<n. A i * B j * tw 1 n (k * (i + j + (n - m)))))"
  proof -
    have prod: "(\<Sum>i<n. A i * tw 1 n (i * k)) * (\<Sum>j<n. B j * tw 1 n (j * k)) * tw (- 1) n (k * m)
          = (\<Sum>i<n. \<Sum>j<n. A i * B j * tw 1 n (k * (i + j + (n - m))))" for k
    proof -
      have "(\<Sum>i<n. A i * tw 1 n (i * k)) * (\<Sum>j<n. B j * tw 1 n (j * k)) * tw (- 1) n (k * m)
            = (\<Sum>i<n. \<Sum>j<n. A i * tw 1 n (i * k) * (B j * tw 1 n (j * k))) * tw (- 1) n (k * m)"
        by (simp only: sum_product)
      also have "\<dots> = (\<Sum>i<n. (\<Sum>j<n. A i * tw 1 n (i * k) * (B j * tw 1 n (j * k))) * tw (- 1) n (k * m))"
        by (rule sum_distrib_right)
      also have "\<dots> = (\<Sum>i<n. \<Sum>j<n. A i * tw 1 n (i * k) * (B j * tw 1 n (j * k)) * tw (- 1) n (k * m))"
        by (intro sum.cong refl sum_distrib_right)
      also have "\<dots> = (\<Sum>i<n. \<Sum>j<n. A i * B j * (tw 1 n (i * k) * tw 1 n (j * k) * tw (- 1) n (k * m)))"
        by (intro sum.cong refl) (simp only: mult_ac)
      finally show ?thesis
        by (simp only: t)
    qed
    show ?thesis
      unfolding DFT_def by (intro sum.cong refl prod)
  qed
  also have "\<dots> = (\<Sum>i<n. \<Sum>k<n. \<Sum>j<n. A i * B j * tw 1 n (k * (i + j + (n - m))))"
    by (rule sum.swap)
  also have "\<dots> = (\<Sum>i<n. \<Sum>j<n. \<Sum>k<n. A i * B j * tw 1 n (k * (i + j + (n - m))))"
    by (intro sum.cong refl sum.swap)
  also have "\<dots> = (\<Sum>i<n. \<Sum>j<n. A i * B j * (if n dvd (i + j + (n - m)) then of_nat n else 0))"
  proof (intro sum.cong refl)
    fix i j
    have "(\<Sum>k<n. A i * B j * tw 1 n (k * (i + j + (n - m))))
          = A i * B j * (\<Sum>k<n. tw 1 n (k * (i + j + (n - m))))"
      by (rule sum_distrib_left [symmetric])
    then show "(\<Sum>k<n. A i * B j * tw 1 n (k * (i + j + (n - m))))
          = A i * B j * (if n dvd (i + j + (n - m)) then of_nat n else 0)"
      by (simp only: tw_sum [OF assms(1) one])
  qed
  also have "\<dots> = (\<Sum>i<n. \<Sum>j<n. of_nat n * (if (i + j) mod n = m then A i * B j else 0))"
    by (intro sum.cong refl) (simp add: dvd_shift [OF assms])
  also have "\<dots> = of_nat n * (\<Sum>i<n. \<Sum>j<n. if (i + j) mod n = m then A i * B j else 0)"
    by (simp only: sum_distrib_left)
  finally show ?thesis
    using assms(1) by simp
qed

subsection \<open>The coefficients of the product\<close>

lemma val_digits_sum: "val_digits xs = (\<Sum>i<length xs. xs ! i * 100 ^ i)"
proof (induction xs)
  case Nil
  then show ?case by simp
next
  case (Cons x xs)
  have "(\<Sum>i<Suc (length xs). (x # xs) ! i * 100 ^ i)
        = (x # xs) ! 0 * 100 ^ 0 + (\<Sum>i<length xs. (x # xs) ! Suc i * 100 ^ Suc i)"
    by (rule sum.lessThan_Suc_shift)
  then have "(\<Sum>i<length (x # xs). (x # xs) ! i * 100 ^ i)
        = x + (\<Sum>i<length xs. xs ! i * 100 ^ Suc i)"
    by (simp del: sum.lessThan_Suc)
  also have "(\<Sum>i<length xs. xs ! i * 100 ^ Suc i) = 100 * (\<Sum>i<length xs. xs ! i * 100 ^ i)"
    by (simp add: sum_distrib_left algebra_simps)
  finally show ?case
    using Cons by simp
qed

lemma conv_val:
  assumes "length a + length b \<le> n"
  shows "val_digits (map (conv a b) [0..<n]) = val_digits a * val_digits b"
proof -
  have "val_digits (map (conv a b) [0..<n]) = (\<Sum>m<n. conv a b m * 100 ^ m)"
    by (simp add: val_digits_sum)
  also have "\<dots> = (\<Sum>m<n. \<Sum>i<length a. \<Sum>j<length b.
                       (if i + j = m then a ! i * b ! j * 100 ^ (i + j) else 0))"
    unfolding conv_def sum_distrib_right
    by (intro sum.cong refl) auto
  also have "\<dots> = (\<Sum>i<length a. \<Sum>m<n. \<Sum>j<length b.
                       (if i + j = m then a ! i * b ! j * 100 ^ (i + j) else 0))"
    by (rule sum.swap)
  also have "\<dots> = (\<Sum>i<length a. \<Sum>j<length b. \<Sum>m<n.
                       (if i + j = m then a ! i * b ! j * 100 ^ (i + j) else 0))"
    by (intro sum.cong refl sum.swap)
  also have "\<dots> = (\<Sum>i<length a. \<Sum>j<length b. a ! i * b ! j * 100 ^ (i + j))"
  proof (intro sum.cong refl)
    fix i j
    assume "i \<in> {..<length a}" "j \<in> {..<length b}"
    then have "i + j \<in> {..<n}"
      using assms by simp
    then show "(\<Sum>m<n. if i + j = m then a ! i * b ! j * 100 ^ (i + j) else 0)
               = a ! i * b ! j * 100 ^ (i + j)"
      by simp
  qed
  also have "\<dots> = (\<Sum>i<length a. \<Sum>j<length b. (a ! i * 100 ^ i) * (b ! j * 100 ^ j))"
    by (intro sum.cong refl) (simp add: power_add)
  also have "\<dots> = (\<Sum>i<length a. a ! i * 100 ^ i) * (\<Sum>j<length b. b ! j * 100 ^ j)"
    by (rule sum_product [symmetric])
  finally show ?thesis
    by (simp add: val_digits_sum)
qed

lemma conv_nonneg: "in_range a \<Longrightarrow> in_range b \<Longrightarrow> 0 \<le> conv a b m"
  unfolding conv_def
  by (intro sum_nonneg) (auto intro!: mult_nonneg_nonneg dest: in_range_nth)

subsection \<open>The size of the transform\<close>

lemma grow_size_pow2: "\<exists>k. grow_size (2 ^ j) m = 2 ^ k \<and> m \<le> 2 ^ k"
proof (induction "m - 2 ^ j" arbitrary: j rule: less_induct)
  case less
  show ?case
  proof (cases "2 ^ j < m")
    case True
    have "(0::nat) < 2 ^ j"
      by simp
    then have "m - 2 ^ Suc j < m - 2 ^ j"
      using True unfolding power_Suc by linarith
    from less [OF this] obtain k where "grow_size (2 ^ Suc j) m = 2 ^ k" "m \<le> 2 ^ k"
      by blast
    moreover have "grow_size (2 ^ j) m = grow_size (2 ^ Suc j) m"
      using True by (subst grow_size.simps) (simp add: push_bit_eq_mult mult.commute)
    ultimately show ?thesis
      by auto
  next
    case False
    then have "grow_size (2 ^ j) m = 2 ^ j"
      by (subst grow_size.simps) simp
    with False show ?thesis
      by (intro exI [of _ j]) simp
  qed
qed

lemma transform_size:
  "\<exists>k. push_bit 1 (grow_size 1 (max la lb)) = 2 ^ Suc k \<and> la + lb \<le> 2 ^ Suc k"
proof -
  obtain k where k: "grow_size (2 ^ 0) (max la lb) = 2 ^ k" "max la lb \<le> 2 ^ k"
    using grow_size_pow2 [of 0 "max la lb"] by blast
  have "la + lb \<le> 2 * max la lb"
    by simp
  also have "\<dots> \<le> 2 ^ Suc k"
    using k(2) by simp
  finally show ?thesis
    using k(1) by (intro exI [of _ k]) (simp add: push_bit_eq_mult)
qed

subsection \<open>The inverse transform returns the coefficients\<close>

lemma resize_complex_nth:
  assumes "length xs \<le> n" "i < n"
  shows "resize_complex (map complex_of_int xs) n ! i = (if i < length xs then of_int (xs ! i) else 0)"
  using assms by (simp add: resize_complex_def nth_append)

lemma length_resize_complex: "length xs \<le> n \<Longrightarrow> length (resize_complex xs n) = n"
  by (simp add: resize_complex_def)

lemma DFT_cong: "(\<And>j. j < n \<Longrightarrow> f j = g j) \<Longrightarrow> DFT \<sigma> n f m = DFT \<sigma> n g m"
  unfolding DFT_def by (intro sum.cong refl) simp

lemma padded_sum:
  fixes f :: "nat \<Rightarrow> complex"
  assumes "la \<le> n" "\<And>i. la \<le> i \<Longrightarrow> f i = 0"
  shows "(\<Sum>i<n. f i) = (\<Sum>i<la. f i)"
  using assms by (intro sum.mono_neutral_right) auto

lemma product_coefficients:
  assumes "length a + length b \<le> 2 ^ Suc k" "m < 2 ^ Suc k"
  defines "n \<equiv> 2 ^ Suc k"
  defines "fa1 \<equiv> FFT (resize_complex (map complex_of_int a) n) False"
  defines "fb1 \<equiv> FFT (resize_complex (map complex_of_int b) n) False"
  shows "FFT (map (\<lambda>i. fa1 ! i * fb1 ! i) [0..<n]) True ! m = of_int (conv a b m)"
proof -
  define A where "A = (\<lambda>i. if i < length a then complex_of_int (a ! i) else 0)"
  define B where "B = (\<lambda>i. if i < length b then complex_of_int (b ! i) else 0)"
  have la: "length a \<le> n" and lb: "length b \<le> n" and npos: "0 < n" and mn: "m < n"
    using assms(1,2) by (simp_all add: n_def)
  have sp: "(1::real) = (if False then - 1 else 1)" and sm: "(- 1::real) = (if True then - 1 else 1)"
    by simp_all
  have fa: "fa1 ! j = DFT 1 n A j" if "j < n" for j
  proof -
    have "fa1 ! j = DFT 1 n (\<lambda>i. resize_complex (map complex_of_int a) n ! i) j"
      unfolding fa1_def n_def
      using FFT_correct(2) [OF _ _ sp, of "resize_complex (map complex_of_int a) (2 ^ Suc k)" "Suc k"]
        that la by (simp add: length_resize_complex n_def)
    also have "\<dots> = DFT 1 n A j"
      by (rule DFT_cong) (simp add: resize_complex_nth [OF la] A_def)
    finally show ?thesis .
  qed
  have fb: "fb1 ! j = DFT 1 n B j" if "j < n" for j
  proof -
    have "fb1 ! j = DFT 1 n (\<lambda>i. resize_complex (map complex_of_int b) n ! i) j"
      unfolding fb1_def n_def
      using FFT_correct(2) [OF _ _ sp, of "resize_complex (map complex_of_int b) (2 ^ Suc k)" "Suc k"]
        that lb by (simp add: length_resize_complex n_def)
    also have "\<dots> = DFT 1 n B j"
      by (rule DFT_cong) (simp add: resize_complex_nth [OF lb] B_def)
    finally show ?thesis .
  qed
  define fa2 where "fa2 = map (\<lambda>i. fa1 ! i * fb1 ! i) [0..<n]"
  have l2: "length fa2 = 2 ^ Suc k"
    by (simp add: fa2_def n_def)
  have "FFT fa2 True ! m = DFT (- 1) n (\<lambda>j. fa2 ! j) m / of_nat n"
    using FFT_correct(2) [OF l2 _ sm] mn by (simp add: n_def)
  also have "DFT (- 1) n (\<lambda>j. fa2 ! j) m = DFT (- 1) n (\<lambda>j. DFT 1 n A j * DFT 1 n B j) m"
    by (rule DFT_cong) (simp add: fa2_def fa fb)
  also have "\<dots> / of_nat n = (\<Sum>i<n. \<Sum>j<n. if (i + j) mod n = m then A i * B j else 0)"
    by (rule convolution_theorem [OF npos mn])
  also have "\<dots> = (\<Sum>i<length a. \<Sum>j<n. if (i + j) mod n = m then A i * B j else 0)"
    by (rule padded_sum [OF la]) (auto simp: A_def intro!: sum.neutral)
  also have "\<dots> = (\<Sum>i<length a. \<Sum>j<length b. if (i + j) mod n = m then A i * B j else 0)"
    by (intro sum.cong refl padded_sum [OF lb]) (auto simp: B_def)
  also have "\<dots> = (\<Sum>i<length a. \<Sum>j<length b.
                      of_int (if i + j = m then a ! i * b ! j else 0))"
  proof (intro sum.cong refl)
    fix i j
    assume "i \<in> {..<length a}" "j \<in> {..<length b}"
    then have ij: "i < length a" "j < length b" "i + j < n"
      using assms(1) by (simp_all add: n_def)
    then show "(if (i + j) mod n = m then A i * B j else 0)
               = complex_of_int (if i + j = m then a ! i * b ! j else 0)"
      by (simp add: A_def B_def)
  qed
  also have "\<dots> = of_int (conv a b m)"
    by (simp add: conv_def)
  finally show ?thesis
    by (simp add: fa2_def)
qed

lemma static_cast_int_round:
  "0 \<le> c \<Longrightarrow> c < 2 ^ 31 \<Longrightarrow> static_cast_int (real_of_int c + 1 / 2) = c"
proof -
  assume c: "0 \<le> c" "c < 2 ^ 31"
  then have "0 \<le> real_of_int c + 1 / 2"
    by simp
  moreover have "\<lfloor>real_of_int c + 1 / 2\<rfloor> = c"
    by linarith
  ultimately show ?thesis
    using c by (simp add: static_cast_int_def)
qed

lemma int_wrap_id: "- (2 ^ 31) \<le> v \<Longrightarrow> v < 2 ^ 31 \<Longrightarrow> int_wrap v = v"
  unfolding int_wrap_def sint_sbintrunc' by (simp add: signed_take_bit_int_eq_self)

subsection \<open>The size of the coefficients\<close>

lemma conv_commute: "conv a b m = conv b a m"
proof -
  have "conv a b m = (\<Sum>j<length b. \<Sum>i<length a. if i + j = m then a ! i * b ! j else 0)"
    unfolding conv_def by (rule sum.swap)
  also have "\<dots> = conv b a m"
    unfolding conv_def by (intro sum.cong refl) (simp add: add.commute mult.commute)
  finally show ?thesis .
qed

lemma conv_le_left:
  assumes "in_range a" "in_range b"
  shows "conv a b m \<le> 9801 * int (length a)"
proof -
  have inner: "(\<Sum>j<length b. if i + j = m then a ! i * b ! j else 0) \<le> 9801"
    if i: "i < length a" for i
  proof -
    have "(\<Sum>j<length b. if i + j = m then a ! i * b ! j else 0)
          \<le> (\<Sum>j<length b. if j = m - i then (9801::int) else 0)"
    proof (rule sum_mono)
      fix j
      assume "j \<in> {..<length b}"
      then have j: "j < length b"
        by simp
      have "0 \<le> a ! i" "a ! i \<le> 99" "0 \<le> b ! j" "b ! j \<le> 99"
        using in_range_nth [OF assms(1) i] in_range_nth [OF assms(2) j] by simp_all
      then have "a ! i * b ! j \<le> 99 * 99"
        by (intro mult_mono) simp_all
      then show "(if i + j = m then a ! i * b ! j else 0) \<le> (if j = m - i then (9801::int) else 0)"
        by auto
    qed
    also have "\<dots> \<le> 9801"
      by simp
    finally show ?thesis .
  qed
  have "conv a b m \<le> (\<Sum>i<length a. (9801::int))"
    unfolding conv_def by (rule sum_mono) (simp add: inner)
  then show ?thesis
    by simp
qed

lemma conv_le:
  assumes "in_range a" "in_range b"
  shows "conv a b m \<le> 9801 * int (min (length a) (length b))"
proof (cases "length a \<le> length b")
  case True
  then show ?thesis
    using conv_le_left [OF assms, of m] by (simp add: min_def)
next
  case False
  then show ?thesis
    using conv_le_left [OF assms(2,1), of m] by (simp add: min_def conv_commute [of a b])
qed

subsection \<open>The carry loop of multiplication\<close>

lemma carry_loop:
  assumes "i \<le> length res" "list_all (\<lambda>v. 0 \<le> v \<and> v \<le> 99 * K) res" "0 \<le> K"
    "100 * K < 2 ^ 31"
  shows "\<exists>res' add. fold carry_step [0..<i] (res, 0) = (res', add) \<and> length res' = length res
           \<and> drop i res' = drop i res \<and> in_range (take i res') \<and> 0 \<le> add \<and> add \<le> K
           \<and> val_digits (take i res') + 100 ^ i * add = val_digits (take i res)"
  using assms(1)
proof (induction i)
  case 0
  then show ?case
    using assms(3) by simp
next
  case (Suc i)
  then obtain r' c where ih: "fold carry_step [0..<i] (res, 0) = (r', c)" "length r' = length res"
      "drop i r' = drop i res" "in_range (take i r')" "0 \<le> c" "c \<le> K"
      "val_digits (take i r') + 100 ^ i * c = val_digits (take i res)"
    by auto
  have n: "i < length res" "i < length r'"
    using Suc.prems ih(2) by simp_all
  define v where "v = r' ! i + c"
  have ri: "r' ! i = res ! i"
    using ih(3) n by (intro nth_of_drop_eq) simp_all
  have "0 \<le> res ! i" "res ! i \<le> 99 * K"
    using assms(2) n(1) by (simp_all add: list_all_length)
  then have rv: "0 \<le> v" and vK: "v \<le> 100 * K"
    using ih(5,6) ri by (simp_all add: v_def)
  have w: "int_wrap v = v"
    using rv vK assms(4) by (intro int_wrap_id) simp_all
  have sm: "v smod base = v mod 100" and sd: "v sdiv base = v div 100"
    using rv by (simp_all add: base_def sdiv_nonneg_100 smod_nonneg_100)
  have "carry_step i (r', c) = (r'[i := v smod base], v sdiv base)"
    by (simp add: carry_step_def Let_def v_def [symmetric] w)
  then have step: "fold carry_step [0..<Suc i] (res, 0) = (r'[i := v mod 100], v div 100)"
    by (simp add: ih(1) sm sd)
  have tk: "take (Suc i) (r'[i := v mod 100]) = take i r' @ [v mod 100]"
    using n by (simp add: take_Suc_update)
  have dr: "drop (Suc i) (r'[i := v mod 100]) = drop (Suc i) res"
    using ih(3) by (metis drop_Suc drop_update_cancel lessI tl_drop)
  have "v div 100 \<le> (100 * K) div 100"
    using vK by (rule zdiv_mono1) simp
  then have c': "0 \<le> v div 100" "v div 100 \<le> K"
    using rv by (simp_all add: pos_imp_zdiv_nonneg_iff)
  have ta: "val_digits (take (Suc i) res) = val_digits (take i res) + 100 ^ i * (res ! i)"
    using n by (simp add: take_Suc_conv_app_nth val_digits_append min_def)
  have ln: "length (take i r') = i"
    using n by simp
  have md: "100 ^ i * (v mod 100) + 100 ^ i * (100 * (v div 100)) = 100 ^ i * v"
    unfolding distrib_left [symmetric] by simp
  have "val_digits (take i r' @ [v mod 100]) + 100 ^ Suc i * (v div 100)
        = val_digits (take i r') + (100 ^ i * (v mod 100) + 100 ^ i * (100 * (v div 100)))"
    unfolding val_digits_append ln by simp
  also have "\<dots> = val_digits (take i r') + 100 ^ i * v"
    by (simp only: md)
  also have "\<dots> = val_digits (take (Suc i) res)"
    using ih(7) by (simp add: ta v_def ri algebra_simps)
  finally have vv: "val_digits (take (Suc i) (r'[i := v mod 100])) + 100 ^ Suc i * (v div 100)
        = val_digits (take (Suc i) res)"
    by (simp only: tk)
  have ir: "in_range (take (Suc i) (r'[i := v mod 100]))"
    using ih(4) by (simp add: tk)
  show ?case
    using step ih(2) dr ir c' vv by (intro exI [of _ "r'[i := v mod 100]"] exI [of _ "v div 100"]) simp
qed

subsection \<open>Multiplication computes the product\<close>

lemma times_assign_coefficients:
  assumes "in_range (a_digits a)" "in_range (a_digits b)"
    "\<And>m. conv (a_digits a) (a_digits b) m < 2147483648"
  shows "\<exists>k. length (a_digits a) + length (a_digits b) \<le> 2 ^ Suc k
           \<and> times_assign a b
               = (let (res', add) = fold carry_step [0..<2 ^ Suc k]
                                      (map (conv (a_digits a) (a_digits b)) [0..<2 ^ Suc k], 0);
                      this' = \<lparr>a_digits = delete_trailing_zeroes res',
                               sign = sign_mul (sign a) (sign b)\<rparr>
                  in if is_zero this' then this'\<lparr>sign := plus_sign\<rparr> else this')"
proof -
  let ?A = "a_digits a" and ?B = "a_digits b"
  obtain k where k: "push_bit 1 (grow_size 1 (max (length ?A) (length ?B))) = 2 ^ Suc k"
      "length ?A + length ?B \<le> 2 ^ Suc k"
    using transform_size by blast
  define n :: nat where "n = 2 ^ Suc k"
  define fa1 where "fa1 = FFT (resize_complex (map complex_of_int ?A) n) False"
  define fb1 where "fb1 = FFT (resize_complex (map complex_of_int ?B) n) False"
  define fa3 where "fa3 = FFT (map (\<lambda>i. fa1 ! i * fb1 ! i) [0..<n]) True"
  define res where "res = map (\<lambda>i. static_cast_int (Re (fa3 ! i) + 0.5)) [0..<n]"
  have co: "fa3 ! m = of_int (conv ?A ?B m)" if "m < n" for m
    unfolding fa3_def fa1_def fb1_def n_def
    using product_coefficients [OF k(2), of m] that by (simp add: n_def)
  have res: "res = map (conv ?A ?B) [0..<n]"
    unfolding res_def
    by (rule map_cong) (simp_all add: co static_cast_int_round conv_nonneg [OF assms(1,2)] assms(3))
  have "times_assign a b
        = (let (res', add) = fold carry_step [0..<n] (res, 0);
               res'' = delete_trailing_zeroes res';
               this' = \<lparr>a_digits = res'', sign = sign_mul (sign a) (sign b)\<rparr>
           in if is_zero this' then this'\<lparr>sign := plus_sign\<rparr> else this')"
    unfolding times_assign_def Let_def k(1) res_def fa3_def fa1_def fb1_def n_def ..
  then show ?thesis
    using k(2) unfolding res n_def Let_def by blast
qed

lemma times_assign_digits:
  assumes "in_range (a_digits a)" "in_range (a_digits b)"
    "min (length (a_digits a)) (length (a_digits b)) \<le> 216917"
  shows "digits_ok (a_digits (times_assign a b))"
    and "val_digits (a_digits (times_assign a b)) = val_digits (a_digits a) * val_digits (a_digits b)"
    and "sign (times_assign a b)
         = (if val_digits (a_digits a) * val_digits (a_digits b) = 0 then plus_sign
            else sign_mul (sign a) (sign b))"
proof -
  let ?A = "a_digits a" and ?B = "a_digits b"
  define K where "K = 99 * int (min (length ?A) (length ?B))"
  have K: "0 \<le> K" "100 * K < 2 ^ 31"
    using assms(3) by (simp_all add: K_def)
  have cb: "0 \<le> conv ?A ?B m" "conv ?A ?B m \<le> 99 * K" for m
    using conv_nonneg [OF assms(1,2), of m] conv_le [OF assms(1,2), of m] by (simp_all add: K_def)
  have cs: "conv ?A ?B m < 2147483648" for m
    using cb(2) [of m] K by simp
  obtain k where k: "length ?A + length ?B \<le> 2 ^ Suc k"
      "times_assign a b
       = (let (res', add) = fold carry_step [0..<2 ^ Suc k] (map (conv ?A ?B) [0..<2 ^ Suc k], 0);
              this' = \<lparr>a_digits = delete_trailing_zeroes res',
                       sign = sign_mul (sign a) (sign b)\<rparr>
          in if is_zero this' then this'\<lparr>sign := plus_sign\<rparr> else this')"
    using times_assign_coefficients [OF assms(1,2) cs] by blast
  define n :: nat where "n = 2 ^ Suc k"
  define res where "res = map (conv ?A ?B) [0..<n]"
  have nn: "list_all (\<lambda>v. 0 \<le> v \<and> v \<le> 99 * K) res"
    by (simp add: res_def list_all_iff cb)
  have lr: "length res = n"
    by (simp add: res_def)
  obtain res' add where c: "fold carry_step [0..<n] (res, 0) = (res', add)" "length res' = n"
      "in_range res'" "0 \<le> add" "val_digits res' + 100 ^ n * add = val_digits res"
    using carry_loop [of n res K] nn lr K by auto
  have vres: "val_digits res = val_digits ?A * val_digits ?B"
    unfolding res_def using k(1) by (intro conv_val) (simp add: n_def)
  have "val_digits ?A * val_digits ?B < 100 ^ length ?A * 100 ^ length ?B"
    using val_digits_bounds [OF assms(1)] val_digits_bounds [OF assms(2)]
    by (intro mult_strict_mono) simp_all
  also have "\<dots> = 100 ^ (length ?A + length ?B)"
    by (simp add: power_add)
  also have "\<dots> \<le> (100::int) ^ n"
    using k(1) by (intro power_increasing) (simp_all add: n_def)
  finally have small: "val_digits ?A * val_digits ?B < 100 ^ n" .
  have "add = 0"
  proof (rule ccontr)
    assume "add \<noteq> 0"
    with c(4) have "1 \<le> add" by simp
    then have m: "(100::int) ^ n \<le> 100 ^ n * add"
      using mult_left_mono [of 1 add "100 ^ n"] by simp
    have "0 \<le> val_digits res'"
      using val_digits_bounds [OF c(3)] by simp
    then show False
      using m c(5) vres small by linarith
  qed
  then have v': "val_digits res' = val_digits ?A * val_digits ?B"
    using c(5) vres by simp
  have ne: "res' \<noteq> []"
    using c(2) by (auto simp: n_def)
  define this' where
    "this' = \<lparr>a_digits = delete_trailing_zeroes res', sign = sign_mul (sign a) (sign b)\<rparr>"
  have r: "times_assign a b = (if is_zero this' then this'\<lparr>sign := plus_sign\<rparr> else this')"
    unfolding k(2) n_def [symmetric] res_def [symmetric]
    by (simp only: c(1) Let_def prod.case this'_def)
  have d: "digits_ok (a_digits this')" and v: "val_digits (a_digits this') = val_digits ?A * val_digits ?B"
    using ne c(3) v' by (simp_all add: this'_def dtz_digits_ok)
  have z: "is_zero this' \<longleftrightarrow> val_digits ?A * val_digits ?B = 0"
    using digits_ok_zero [OF d] v by (simp add: is_zero_iff)
  show "digits_ok (a_digits (times_assign a b))"
    using d by (simp add: r)
  show "val_digits (a_digits (times_assign a b)) = val_digits ?A * val_digits ?B"
    using v by (simp add: r)
  show "sign (times_assign a b)
         = (if val_digits ?A * val_digits ?B = 0 then plus_sign else sign_mul (sign a) (sign b))"
    using z by (simp add: r this'_def)
qed

lemma times_assign_correct:
  assumes "in_range (a_digits a)" "in_range (a_digits b)"
    "min (length (a_digits a)) (length (a_digits b)) \<le> 216917"
  shows "canonical (times_assign a b)"
    and "value_of (times_assign a b) = value_of a * value_of b"
proof -
  note t = times_assign_digits [OF assms]
  have "is_zero (times_assign a b) \<longleftrightarrow> val_digits (a_digits a) * val_digits (a_digits b) = 0"
    using digits_ok_zero [OF t(1)] t(2) by (simp add: is_zero_iff)
  then show "canonical (times_assign a b)"
    using t(1,3) by (simp add: canonical_def)
  show "value_of (times_assign a b) = value_of a * value_of b"
    using t(2,3) sign_cases [of "sign a"] sign_cases [of "sign b"]
    by (auto simp: value_of_def sign_mul_def)
qed

subsection \<open>Remainder\<close>

lemma canonical_collapse: "canonical y \<Longrightarrow> (if is_zero y then y\<lparr>sign := plus_sign\<rparr> else y) = y"
  by (auto simp: canonical_def)

lemma canonical_in_range: "canonical y \<Longrightarrow> in_range (a_digits y)"
  by (simp add: canonical_def digits_ok_def)

lemma abs_value_of: "in_range (a_digits y) \<Longrightarrow> \<bar>value_of y\<bar> = val_digits (a_digits y)"
  using val_digits_bounds [of "a_digits y"] by (simp add: value_of_def)


lemma canonical_is_zero: "canonical y \<Longrightarrow> is_zero y \<longleftrightarrow> value_of y = 0"
  using digits_ok_zero [of "a_digits y"] by (auto simp: canonical_def is_zero_iff value_of_def)



lemma abs_sdiv: "\<bar>x sdiv y\<bar> = \<bar>x\<bar> div \<bar>y :: int\<bar>"
proof -
  have "0 \<le> \<bar>x\<bar> div \<bar>y\<bar>"
    by (simp add: pos_imp_zdiv_nonneg_iff div_int_pos_iff)
  then show ?thesis
    by (cases "x = 0"; cases "y = 0") (auto simp: signed_divide_int_def abs_mult sgn_if)
qed

subsection \<open>The number of groups of a value\<close>

lemma digits_ok_length_le:
  assumes "digits_ok xs" "val_digits xs < 100 ^ k" "1 \<le> k"
  shows "length xs \<le> k"
proof (cases "length xs > 1")
  case True
  then have "100 ^ (length xs - 1) \<le> val_digits xs"
    using assms(1) by (intro val_digits_lower) (auto simp: digits_ok_def)
  then have "(100::int) ^ (length xs - 1) < 100 ^ k"
    using assms(2) by linarith
  then have "length xs - 1 < k"
    by (simp add: power_strict_increasing_iff)
  then show ?thesis
    by simp
next
  case False
  then show ?thesis
    using assms(3) by simp
qed

lemma canonical_length_le:
  assumes "canonical x" "canonical y" "\<bar>value_of x\<bar> \<le> \<bar>value_of y\<bar>"
  shows "length (a_digits x) \<le> length (a_digits y)"
proof -
  have ry: "in_range (a_digits y)" and ny: "a_digits y \<noteq> []"
    using assms(2) by (simp_all add: canonical_def digits_ok_def)
  have "val_digits (a_digits x) \<le> val_digits (a_digits y)"
    using assms(3) abs_value_of [OF canonical_in_range [OF assms(1)]] abs_value_of [OF ry]
    by simp
  then have "val_digits (a_digits x) < 100 ^ length (a_digits y)"
    using val_digits_bounds [OF ry] by linarith
  then show ?thesis
    using ny by (intro digits_ok_length_le canonicalD [OF assms(1)]) (simp_all add: Suc_le_eq)
qed

lemma canonical_length_product:
  assumes "canonical p" "in_range (a_digits x)" "in_range (a_digits y)" "a_digits x \<noteq> []"
    "value_of p = value_of x * value_of y"
  shows "length (a_digits p) \<le> length (a_digits x) + length (a_digits y)"
proof -
  have "val_digits (a_digits p) = \<bar>value_of x * value_of y\<bar>"
    using abs_value_of [OF canonical_in_range [OF assms(1)]] assms(5) by simp
  also have "\<dots> = val_digits (a_digits x) * val_digits (a_digits y)"
    by (simp add: abs_mult abs_value_of assms(2,3))
  also have "\<dots> < 100 ^ length (a_digits x) * 100 ^ length (a_digits y)"
    using val_digits_bounds [OF assms(2)] val_digits_bounds [OF assms(3)]
    by (intro mult_strict_mono) simp_all
  finally have "val_digits (a_digits p) < 100 ^ (length (a_digits x) + length (a_digits y))"
    by (simp add: power_add)
  then show ?thesis
    using assms(4) by (intro digits_ok_length_le canonicalD [OF assms(1)]) (simp_all add: Suc_le_eq)
qed

lemma canonical_length_sum:
  assumes "canonical p" "in_range (a_digits x)" "in_range (a_digits y)"
    "\<bar>value_of p\<bar> \<le> \<bar>value_of x\<bar> + \<bar>value_of y\<bar>"
    "length (a_digits x) \<le> k" "length (a_digits y) \<le> k"
  shows "length (a_digits p) \<le> Suc k"
proof -
  have bx: "val_digits (a_digits x) < 100 ^ k"
  proof -
    have "val_digits (a_digits x) < 100 ^ length (a_digits x)"
      using val_digits_bounds [OF assms(2)] by simp
    also have "\<dots> \<le> (100::int) ^ k"
      using assms(5) by (intro power_increasing) simp_all
    finally show ?thesis .
  qed
  have bv: "val_digits (a_digits y) < 100 ^ k"
  proof -
    have "val_digits (a_digits y) < 100 ^ length (a_digits y)"
      using val_digits_bounds [OF assms(3)] by simp
    also have "\<dots> \<le> (100::int) ^ k"
      using assms(6) by (intro power_increasing) simp_all
    finally show ?thesis .
  qed
  have "val_digits (a_digits p) \<le> val_digits (a_digits x) + val_digits (a_digits y)"
    using assms(4) abs_value_of [OF canonical_in_range [OF assms(1)]]
      abs_value_of [OF assms(2)] abs_value_of [OF assms(3)] by simp
  moreover have "(0::int) < 100 ^ k"
    by simp
  ultimately have "val_digits (a_digits p) < 100 ^ Suc k"
    using bx bv unfolding power_Suc by linarith
  then show ?thesis
    by (intro digits_ok_length_le canonicalD [OF assms(1)]) simp_all
qed


subsection \<open>The remainder of the division\<close>

lemma mod_assign_from_quotient:
  assumes "canonical a" "in_range (a_digits x)" "divide_assign a x = Some q" "canonical q"
    "min (length (a_digits q)) (length (a_digits x)) \<le> 216917"
  shows "\<exists>r. mod_assign a x = Some r \<and> canonical r \<and> value_of r = value_of a - value_of q * value_of x"
proof -
  define p where "p = times_assign q x"
  have p: "canonical p" "value_of p = value_of q * value_of x"
    unfolding p_def
    using times_assign_correct [OF canonical_in_range [OF assms(4)] assms(2,5)]
    by simp_all
  define r where "r = minus_assign a p"
  have r: "canonical r" "value_of r = value_of a - value_of p"
    unfolding r_def using minus_assign_correct [OF assms(1) canonicalD [OF p(1)]] by simp_all
  have "mod_assign a x = Some (if is_zero r then r\<lparr>sign := plus_sign\<rparr> else r)"
    by (simp add: mod_assign_def assms(3) Let_def p_def [symmetric] r_def [symmetric])
  then have "mod_assign a x = Some r"
    by (simp only: canonical_collapse [OF r(1)])
  then show ?thesis
    using r p(2) by simp
qed

lemma abs_div_le: "\<bar>x\<bar> div \<bar>y\<bar> \<le> \<bar>x :: int\<bar>"
proof (cases "\<bar>y\<bar> = 0")
  case True
  then show ?thesis by simp
next
  case False
  then have "1 \<le> \<bar>y\<bar>"
    by simp
  then have "\<bar>x\<bar> div \<bar>y\<bar> \<le> \<bar>x\<bar> div 1"
    by (intro zdiv_mono2) simp_all
  then show ?thesis
    by simp
qed

lemma quotient_length:
  assumes "canonical a" "canonical q" "value_of q = value_of a sdiv v"
  shows "length (a_digits q) \<le> length (a_digits a)"
proof -
  have "\<bar>value_of q\<bar> = \<bar>value_of a\<bar> div \<bar>v\<bar>"
    unfolding assms(3) by (rule abs_sdiv)
  also have "\<dots> \<le> \<bar>value_of a\<bar>"
    by (rule abs_div_le)
  finally show ?thesis
    by (rule canonical_length_le [OF assms(2,1)])
qed

lemma mod_assign_correct:
  assumes "canonical a" "canonical x" "\<not> is_zero x"
    "min (length (a_digits a)) (length (a_digits x)) \<le> 216917"
  shows "\<exists>r. mod_assign a x = Some r \<and> canonical r \<and> value_of r = value_of a smod value_of x"
proof -
  obtain q where q: "divide_assign a x = Some q" "canonical q"
      "value_of q = value_of a sdiv value_of x"
    using divide_assign_correct [OF assms(1,2,3)] by blast
  have "length (a_digits q) \<le> length (a_digits a)"
    by (rule quotient_length [OF assms(1) q(2,3)])
  then have m: "min (length (a_digits q)) (length (a_digits x)) \<le> 216917"
    using assms(4) by simp
  obtain r where r: "mod_assign a x = Some r" "canonical r"
      "value_of r = value_of a - value_of q * value_of x"
    using mod_assign_from_quotient [OF assms(1) canonical_in_range [OF assms(2)] q(1,2) m] by blast
  have "value_of r = value_of a smod value_of x"
    unfolding r(3) q(3) by (rule minus_sdiv_mult_eq_smod)
  then show ?thesis
    using r(1,2) by simp
qed

lemma mod_by_zero:
  assumes "canonical a" "a_digits x = [0]"
  shows "mod_assign a x = Some a"
proof -
  note dz = divide_by_zero [OF assms]
  have ir: "in_range (a_digits x)"
    by (simp add: assms(2) in_range_def)
  have vx: "value_of x = 0"
    by (simp add: value_of_def assms(2))
  have m: "min (length (a_digits (the (divide_assign a x)))) (length (a_digits x)) \<le> 216917"
    by (simp add: assms(2))
  obtain r where r: "mod_assign a x = Some r" "canonical r"
      "value_of r = value_of a - value_of (the (divide_assign a x)) * value_of x"
    using mod_assign_from_quotient [OF assms(1) ir _ _ m] dz(1,2) by auto
  have "r = a"
    using r(2) assms(1) r(3) vx by (intro canonical_inj) simp_all
  then show ?thesis
    using r(1) by simp
qed


subsection \<open>Addition of values that need not be canonical\<close>

lemma plus_assign_value:
  assumes "digits_ok (a_digits t)" "digits_ok (a_digits x)"
  shows "digits_ok (a_digits (plus_assign t x))"
    and "value_of (plus_assign t x) = value_of t + value_of x"
proof -
  have rt: "in_range (a_digits t)" and rx: "in_range (a_digits x)"
    using assms by (simp_all add: digits_ok_def)
  show "digits_ok (a_digits (plus_assign t x))"
    using plus_assign_same(1) [OF _ rt rx] plus_assign_diff(1) [OF _ assms]
    by (cases "sign t = sign x") simp_all
  show "value_of (plus_assign t x) = value_of t + value_of x"
  proof (cases "sign t = sign x")
    case True
    then show ?thesis
      using plus_assign_same(2,3) [OF True rt rx] by (simp add: value_of_def)
  next
    case False
    note r = plus_assign_diff [OF False assms]
    show ?thesis
      using r(2,3) False sign_cases [of "sign t"] sign_cases [of "sign x"]
      by (auto simp: value_of_def)
  qed
qed

lemma plus_assign_diff_canonical:
  assumes "sign t \<noteq> sign x" "digits_ok (a_digits t)" "digits_ok (a_digits x)"
  shows "canonical (plus_assign t x)"
proof -
  note r = plus_assign_diff [OF assms]
  have "is_zero (plus_assign t x) \<longrightarrow> val_digits (a_digits t) = val_digits (a_digits x)"
    using r(2) by (auto simp: is_zero_iff)
  then show ?thesis
    using r(1,3) by (auto simp: canonical_def)
qed

lemma add_subtract_result:
  assumes "digits_ok (a_digits a)" "digits_ok (a_digits b)"
  defines "r \<equiv> operator_minus (operator_plus a b) b"
  shows "canonical r" and "value_of r = value_of a"
proof -
  let ?va = "val_digits (a_digits a)" and ?vb = "val_digits (a_digits b)"
  define s where "s = plus_assign a b"
  define c where "c = b\<lparr>sign := sign_mul (sign b) minus_sign\<rparr>"
  have r: "r = plus_assign s c"
    by (simp add: r_def operator_minus_def operator_plus_def minus_assign_def s_def c_def)
  have ra: "in_range (a_digits a)" and rb: "in_range (a_digits b)"
    using assms(1,2) by (simp_all add: digits_ok_def)
  have s: "digits_ok (a_digits s)" "value_of s = value_of a + value_of b"
    unfolding s_def by (rule plus_assign_value [OF assms(1,2)])+
  have c: "digits_ok (a_digits c)" "value_of c = - value_of b" "sign c \<noteq> sign b"
    "a_digits c = a_digits b"
    using assms(2) sign_cases [of "sign b"] by (auto simp: c_def value_of_def sign_mul_def)
  show "value_of r = value_of a"
    unfolding r using plus_assign_value(2) [OF s(1) c(1)] s(2) c(2) by simp
  show "canonical r"
  proof (cases "sign s = sign c")
    case False
    then show ?thesis
      unfolding r by (rule plus_assign_diff_canonical [OF _ s(1) c(1)])
  next
    case True
    have rs: "in_range (a_digits s)" and rc: "in_range (a_digits c)"
      using s(1) c(1) by (simp_all add: digits_ok_def)
    note p = plus_assign_same [OF True rs rc]
    have "sign r = plus_sign" if z: "is_zero r"
    proof -
      have "val_digits (a_digits s) + ?vb = 0"
        using z p(2) by (simp add: r is_zero_iff c(4))
      then have z0: "val_digits (a_digits s) = 0" "?vb = 0"
        using val_digits_bounds [OF rs] val_digits_bounds [OF rb] by simp_all
      have ne: "sign a \<noteq> sign b"
      proof
        assume e: "sign a = sign b"
        have "sign s = sign a"
          unfolding s_def by (rule plus_assign_same(3) [OF e ra rb])
        then show False
          using True c(3) e by simp
      qed
      note d = plus_assign_diff [OF ne assms(1,2)]
      have "?va = ?vb"
        using d(2) z0 by (simp add: s_def)
      then have "sign s = plus_sign"
        using d(3) by (simp add: s_def)
      then show ?thesis
        using p(3) by (simp add: r)
    qed
    then show ?thesis
      using p(1) by (simp add: canonical_def r)
  qed
qed




section \<open>The rational numbers\<close>

subsection \<open>The greatest common divisor\<close>

lemma gcd_bi_correct:
  assumes "canonical a" "canonical b" "0 \<le> value_of a" "0 \<le> value_of b"
    "length (a_digits a) \<le> 216917" "length (a_digits b) \<le> 216917"
  shows "\<exists>g. gcd_bi a b = Some g \<and> canonical g \<and> value_of g = gcd (value_of a) (value_of b)"
  using assms
proof (induction "nat (value_of b)" arbitrary: a b rule: less_induct)
  case less
  show ?case
  proof (cases "is_zero b")
    case True
    then have "value_of b = 0"
      using less.prems(2) by (simp add: canonical_is_zero)
    moreover have "gcd_bi a b = Some a"
      using True by (subst gcd_bi.simps) simp
    ultimately show ?thesis
      using less.prems(1,3) by simp
  next
    case False
    then have bp: "0 < value_of b"
      using less.prems(2,4) by (simp add: canonical_is_zero)
    have m: "min (length (a_digits a)) (length (a_digits b)) \<le> 216917"
      using less.prems(5) by simp
    obtain r where r: "mod_assign a b = Some r" "canonical r"
        "value_of r = value_of a smod value_of b"
      using mod_assign_correct [OF less.prems(1,2) False m] by blast
    have rv: "value_of r = value_of a mod value_of b"
      using r(3) less.prems(3) bp by (simp add: smod_nonneg)
    then have rb: "0 \<le> value_of r" "value_of r < value_of b"
      using bp by simp_all
    then have "nat (value_of r) < nat (value_of b)"
      by simp
    moreover have "length (a_digits r) \<le> 216917"
      using canonical_length_le [OF r(2) less.prems(2)] rb less.prems(6) by simp
    ultimately obtain g where g: "gcd_bi b r = Some g" "canonical g"
        "value_of g = gcd (value_of b) (value_of r)"
      using less.hyps [OF _ less.prems(2) r(2) less.prems(4) rb(1) less.prems(6)] by blast
    have "gcd_bi a b = gcd_bi b r"
      using False r(1) by (subst gcd_bi.simps) simp
    moreover have "gcd (value_of b) (value_of r) = gcd (value_of a) (value_of b)"
      unfolding rv by (rule gcd_red_int [symmetric])
    ultimately show ?thesis
      using g by simp
  qed
qed

subsection \<open>Normalisation\<close>

lemma canonical_plus: "canonical y \<Longrightarrow> canonical (y\<lparr>sign := plus_sign\<rparr>)"
  by (simp add: canonical_def is_zero_def)

lemma value_of_abs: "in_range (a_digits y) \<Longrightarrow> value_of (y\<lparr>sign := plus_sign\<rparr>) = \<bar>value_of y\<bar>"
  using val_digits_bounds [of "a_digits y"] by (simp add: value_of_def)

lemma is_one_iff: "canonical g \<Longrightarrow> 0 \<le> value_of g \<Longrightarrow> is_one g \<longleftrightarrow> value_of g = 1"
proof -
  assume c: "canonical g" and n: "0 \<le> value_of g"
  have v: "val_digits (a_digits g) = value_of g"
    using canonical_nonneg(2) [OF c n] .
  have d1: "digits_ok [1]"
    by (simp add: digits_ok_def)
  have "is_one g \<longleftrightarrow> a_digits g = [1]"
    by (cases "a_digits g") (auto simp: is_one_def)
  also have "\<dots> \<longleftrightarrow> val_digits (a_digits g) = 1"
    using digits_ok_inj [OF canonicalD [OF c] d1] by auto
  finally show ?thesis
    by (simp add: v)
qed

lemma normalize_result:
  assumes "canonical (numerator r)" "canonical (denominator r)" "0 < value_of (denominator r)"
    "length (a_digits (numerator r)) \<le> 216917" "length (a_digits (denominator r)) \<le> 216917"
  defines "G \<equiv> gcd (value_of (numerator r)) (value_of (denominator r))"
  shows "\<exists>r'. normalize r = Some r' \<and> I3 r'
           \<and> value_of (numerator r') = \<bar>value_of (numerator r)\<bar> div G
           \<and> value_of (denominator r') = value_of (denominator r) div G
           \<and> r_sign r' = (if is_zero (numerator r) then plus_sign
                          else sign_mul (r_sign r) (sign (numerator r)))"
proof -
  define num1 where "num1 = (numerator r)\<lparr>sign := plus_sign\<rparr>"
  define den where "den = denominator r"
  define sign2 where
    "sign2 = (if is_zero num1 then plus_sign else sign_mul (r_sign r) (sign (numerator r)))"
  have n1: "canonical num1" "0 \<le> value_of num1" "sign num1 = plus_sign"
    using assms(1) canonical_plus value_of_abs [OF canonical_in_range [OF assms(1)]]
    by (simp_all add: num1_def)
  have va: "value_of num1 = \<bar>value_of (numerator r)\<bar>"
    using value_of_abs [OF canonical_in_range [OF assms(1)]] by (simp add: num1_def)
  have dn: "canonical den" "0 < value_of den"
    using assms(2,3) by (simp_all add: den_def)
  have G: "gcd (value_of num1) (value_of den) = G"
    by (simp add: va G_def den_def)
  have sg: "sign2 = (if is_zero (numerator r) then plus_sign
                     else sign_mul (r_sign r) (sign (numerator r)))"
    by (simp add: sign2_def num1_def is_zero_def)
  have ds: "sign den = plus_sign" and dz: "\<not> is_zero den"
    using canonical_nonneg(1) [OF dn(1)] dn by (simp_all add: canonical_is_zero)
  have ln: "length (a_digits num1) \<le> 216917" "length (a_digits den) \<le> 216917"
    using assms(4,5) by (simp_all add: num1_def den_def)
  obtain g where g: "gcd_bi num1 den = Some g" "canonical g"
      "value_of g = gcd (value_of num1) (value_of den)"
    using gcd_bi_correct [OF n1(1) dn(1) n1(2) _ ln] dn(2) by auto
  have gp: "0 < value_of g"
    using dn(2) by (simp add: g(3))
  have gz: "\<not> is_zero g"
    using gp g(2) by (simp add: canonical_is_zero)
  have go: "is_one g \<longleftrightarrow> value_of g = 1"
    using is_one_iff [OF g(2)] gp by simp
  have unf: "normalize r
      = (if is_one g then Some \<lparr>numerator = num1, denominator = den, r_sign = sign2\<rparr>
         else (case divide_assign num1 g of
                 None \<Rightarrow> None
               | Some num2 \<Rightarrow>
                   (case divide_assign den g of
                      None \<Rightarrow> None
                    | Some den2 \<Rightarrow> Some \<lparr>numerator = num2, denominator = den2, r_sign = sign2\<rparr>)))"
    unfolding normalize_def Let_def num1_def [symmetric] den_def [symmetric] sign2_def [symmetric]
    by (simp add: g(1))
  show ?thesis
  proof (cases "is_one g")
    case True
    then have co: "gcd (value_of num1) (value_of den) = 1"
      using go g(3) by simp
    have "is_zero num1 \<longrightarrow> is_one den"
    proof
      assume "is_zero num1"
      then have "value_of num1 = 0"
        using n1(1) by (simp add: canonical_is_zero)
      then have "value_of den = 1"
        using co dn(2) by simp
      then show "is_one den"
        using is_one_iff [OF dn(1)] by simp
    qed
    then have "I3 \<lparr>numerator = num1, denominator = den, r_sign = sign2\<rparr>"
      using n1 dn ds dz co by (simp add: I3_def sign2_def)
    moreover have "G = 1"
      using co G by simp
    ultimately show ?thesis
      using True va sg by (simp add: unf den_def)
  next
    case False
    obtain num2 where q1: "divide_assign num1 g = Some num2" "canonical num2"
        "value_of num2 = value_of num1 sdiv value_of g"
      using divide_assign_correct [OF n1(1) g(2) gz] by blast
    obtain den2 where q2: "divide_assign den g = Some den2" "canonical den2"
        "value_of den2 = value_of den sdiv value_of g"
      using divide_assign_correct [OF dn(1) g(2) gz] by blast
    have v1: "value_of num2 = value_of num1 div gcd (value_of num1) (value_of den)"
      using q1(3) n1(2) gp by (simp add: sdiv_nonneg g(3))
    have v2: "value_of den2 = value_of den div gcd (value_of num1) (value_of den)"
      using q2(3) dn(2) gp by (simp add: sdiv_nonneg g(3))
    have cop: "coprime (value_of num2) (value_of den2)"
      unfolding v1 v2 using dn(2) by (intro div_gcd_coprime) simp
    have p2: "0 < value_of den2"
    proof -
      have "gcd (value_of num1) (value_of den) dvd value_of den"
        by simp
      then obtain c where c: "value_of den = gcd (value_of num1) (value_of den) * c" ..
      have "0 < c"
        using dn(2) gp c g(3) by (metis zero_less_mult_pos)
      moreover have "value_of den2 = c"
        unfolding v2 using gp g(3) by (subst (1) c) simp
      ultimately show ?thesis
        by simp
    qed
    have p1: "0 \<le> value_of num2"
      unfolding v1 using n1(2) gp g(3) by (simp add: pos_imp_zdiv_nonneg_iff)
    have s1: "sign num2 = plus_sign" and s2: "sign den2 = plus_sign"
      using canonical_nonneg(1) [OF q1(2) p1] canonical_nonneg(1) [OF q2(2)] p2 by simp_all
    have z2: "\<not> is_zero den2"
      using p2 q2(2) by (simp add: canonical_is_zero)
    have zn: "is_zero num2 \<longrightarrow> is_zero num1 \<and> is_one den2"
    proof
      assume "is_zero num2"
      then have z: "value_of num2 = 0"
        using q1(2) by (simp add: canonical_is_zero)
      have "gcd (value_of num1) (value_of den) dvd value_of num1"
        by simp
      then have "value_of num1 = value_of num2 * gcd (value_of num1) (value_of den)"
        unfolding v1 by simp
      then have "value_of num1 = 0"
        using z by simp
      then have a: "is_zero num1"
        using n1(1) by (simp add: canonical_is_zero)
      have "value_of den2 = 1"
        using cop z p2 by simp
      then have "is_one den2"
        using is_one_iff [OF q2(2)] by simp
      with a show "is_zero num1 \<and> is_one den2" ..
    qed
    have "I3 \<lparr>numerator = num2, denominator = den2, r_sign = sign2\<rparr>"
      using q1(2) q2(2) s1 s2 z2 cop zn by (auto simp: I3_def sign2_def coprime_iff_gcd_eq_1)
    moreover have "value_of num2 = \<bar>value_of (numerator r)\<bar> div G"
      "value_of den2 = value_of (denominator r) div G"
      using v1 v2 by (simp_all add: G_def va den_def)
    ultimately show ?thesis
      using False q1(1) q2(1) sg by (simp add: unf)
  qed
qed

lemma normalize_correct:
  assumes "canonical (numerator r)" "canonical (denominator r)" "0 < value_of (denominator r)"
    "length (a_digits (numerator r)) \<le> 216917" "length (a_digits (denominator r)) \<le> 216917"
  shows "\<exists>r'. normalize r = Some r' \<and> I3 r'"
  using normalize_result [OF assms] by blast


subsection \<open>The operations of Rational\<close>

lemma I3_D:
  assumes "I3 r"
  shows "canonical (numerator r)" "canonical (denominator r)"
    "0 \<le> value_of (numerator r)" "0 < value_of (denominator r)"
proof -
  show cn: "canonical (numerator r)" and cd: "canonical (denominator r)"
    using assms by (simp_all add: I3_def)
  have sn: "sign (numerator r) = plus_sign" and sd: "sign (denominator r) = plus_sign"
    and nz: "\<not> is_zero (denominator r)"
    using assms by (simp_all add: I3_def)
  show "0 \<le> value_of (numerator r)"
    using sn val_digits_bounds [OF canonical_in_range [OF cn]] by (simp add: value_of_def)
  have "0 \<le> value_of (denominator r)"
    using sd val_digits_bounds [OF canonical_in_range [OF cd]] by (simp add: value_of_def)
  moreover have "value_of (denominator r) \<noteq> 0"
    using nz cd by (simp add: canonical_is_zero)
  ultimately show "0 < value_of (denominator r)"
    by simp
qed

lemma one_eq: "\<lparr>a_digits = int_groups 1 [], sign = sgn_of 1\<rparr> = \<lparr>a_digits = [1], sign = plus_sign\<rparr>"
  by (simp add: int_groups_stop base_def sgn_of_def signed_modulo_int_def signed_divide_int_def)

lemma zero_eq: "\<lparr>a_digits = int_groups 0 [], sign = sgn_of 0\<rparr> = \<lparr>a_digits = [0], sign = plus_sign\<rparr>"
  by (simp add: int_groups_stop base_def sgn_of_def signed_modulo_int_def signed_divide_int_def)

lemma canonical_one: "canonical \<lparr>a_digits = [1], sign = plus_sign\<rparr>"
  by (simp add: canonical_def digits_ok_def in_range_def is_zero_def)

lemma canonical_zero: "canonical \<lparr>a_digits = [0], sign = plus_sign\<rparr>"
  by (simp add: canonical_def digits_ok_def in_range_def is_zero_def)

lemma Rational_default_I3: "I3 Rational_default"
  unfolding Rational_default_def one_eq zero_eq
  by (simp add: I3_def canonical_one canonical_zero is_zero_def is_one_def value_of_def)

lemma Rational_bi_I3:
  assumes "canonical n"
  shows "I3 (Rational_bi n)"
proof -
  have "is_zero (n\<lparr>sign := plus_sign\<rparr>) \<longrightarrow> sign n = plus_sign"
    using assms by (simp add: canonical_def is_zero_def)
  then show ?thesis
    unfolding Rational_bi_def one_eq
    using canonical_plus [OF assms]
    by (simp add: I3_def canonical_one is_zero_def is_one_def value_of_def)
qed

lemma BigInteger_int_ok:
  assumes "sint x \<noteq> - (2 ^ 31)"
  shows "\<exists>r. BigInteger_int x = Some r \<and> canonical r \<and> value_of r = sint x"
proof -
  obtain ds where ds: "int_groups \<bar>sint x\<bar> [] = ds" "ds \<noteq> []"
      "list_all (\<lambda>d. 0 \<le> d \<and> d < 100) ds" "val_digits ds = \<bar>sint x\<bar>"
      "0 < \<bar>sint x\<bar> \<longrightarrow> last ds \<noteq> 0"
    using int_groups_shape [of "\<bar>sint x\<bar>" "[]"] by auto
  define r where "r = \<lparr>a_digits = ds, sign = sgn_of (sint x)\<rparr>"
  have r: "BigInteger_int x = Some r"
    using assms ds(1) by (simp add: BigInteger_int_def r_def)
  have top: "length ds > 1 \<longrightarrow> last ds \<noteq> 0"
  proof
    assume "length ds > 1"
    show "last ds \<noteq> 0"
    proof (cases "\<bar>sint x\<bar> = 0")
      case True
      then have "int_groups \<bar>sint x\<bar> [] = [0]"
        using int_groups_stop [of 0 "[]"] by (simp add: base_def)
      with ds(1) \<open>length ds > 1\<close> show ?thesis by auto
    next
      case False
      with ds(5) show ?thesis by simp
    qed
  qed
  have zero: "is_zero r \<longrightarrow> sint x = 0"
  proof
    assume "is_zero r"
    then have "ds = [0]"
      by (cases ds) (auto simp: is_zero_def r_def)
    with ds(4) show "sint x = 0" by simp
  qed
  have can: "canonical r"
    using ds(2,3) top zero
    by (auto simp: canonical_def digits_ok_def in_range_def r_def sgn_of_def)
  have v: "value_of r = sint x"
    using ds(4) by (auto simp: value_of_def r_def sgn_of_def)
  show ?thesis
    using r can v by simp
qed

lemma Rational_int_I3:
  assumes "sint x \<noteq> - (2 ^ 31)"
  shows "\<exists>r. Rational_int x = Some r \<and> I3 r"
proof -
  obtain n where n: "BigInteger_int x = Some n" "canonical n"
    using BigInteger_int_ok [OF assms] by blast
  show ?thesis
    using n(1) Rational_bi_I3 [OF n(2)] by (simp add: Rational_int_def)
qed



lemma product_ok:
  assumes "in_range (a_digits x)" "in_range (a_digits y)" "a_digits x \<noteq> []"
    "length (a_digits x) \<le> kx" "length (a_digits y) \<le> ky" "min kx ky \<le> 216917"
  shows "canonical (times_assign x y)"
    and "value_of (times_assign x y) = value_of x * value_of y"
    and "length (a_digits (times_assign x y)) \<le> kx + ky"
proof -
  have "min (length (a_digits x)) (length (a_digits y)) \<le> min kx ky"
    using assms(4,5) by (rule min.mono)
  then have m: "min (length (a_digits x)) (length (a_digits y)) \<le> 216917"
    using assms(6) by (rule order_trans)
  show c: "canonical (times_assign x y)"
    and v: "value_of (times_assign x y) = value_of x * value_of y"
    by (rule times_assign_correct [OF assms(1,2) m])+
  have "length (a_digits (times_assign x y)) \<le> length (a_digits x) + length (a_digits y)"
    by (rule canonical_length_product [OF c assms(1,2,3) v])
  then show "length (a_digits (times_assign x y)) \<le> kx + ky"
    using assms(4,5) by simp
qed

lemma I3_groups:
  assumes "I3 r" "groups_le k r"
  shows "in_range (a_digits (numerator r))" "in_range (a_digits (denominator r))"
    "a_digits (numerator r) \<noteq> []" "a_digits (denominator r) \<noteq> []"
    "length (a_digits (numerator r)) \<le> k" "length (a_digits (denominator r)) \<le> k"
  using assms by (simp_all add: I3_def groups_le_def canonical_def digits_ok_def)

lemma times_assign_r_I3:
  assumes "I3 a" "I3 b" "groups_le 72305 a" "groups_le 72305 b"
  shows "\<exists>r. times_assign_r a b = Some r \<and> I3 r"
proof -
  note A = I3_D [OF assms(1)] and B = I3_D [OF assms(2)]
  note ga = I3_groups [OF assms(1,3)] and gb = I3_groups [OF assms(2,4)]
  note n = product_ok [OF ga(1) gb(1) ga(3) ga(5) gb(5)]
  note d = product_ok [OF ga(2) gb(2) ga(4) ga(6) gb(6)]
  have "0 < value_of (times_assign (denominator a) (denominator b))"
    using A(4) B(4) d(2) by simp
  then show ?thesis
    unfolding times_assign_r_def
    using n(1,3) d(1,3) by (intro normalize_correct) simp_all
qed

lemma divide_assign_r_I3:
  assumes "I3 a" "I3 b" "groups_le 72305 a" "groups_le 72305 b" "\<not> is_zero (numerator b)"
  shows "\<exists>r. divide_assign_r a b = Some r \<and> I3 r"
proof -
  note A = I3_D [OF assms(1)] and B = I3_D [OF assms(2)]
  note ga = I3_groups [OF assms(1,3)] and gb = I3_groups [OF assms(2,4)]
  note n = product_ok [OF ga(1) gb(2) ga(3) ga(5) gb(6)]
  note d = product_ok [OF ga(2) gb(1) ga(4) ga(6) gb(5)]
  have "0 < value_of (numerator b)"
    using B(1,3) assms(5) by (simp add: canonical_is_zero)
  then have "0 < value_of (times_assign (denominator a) (numerator b))"
    using A(4) d(2) by simp
  then show ?thesis
    unfolding divide_assign_r_def
    using n(1,3) d(1,3) by (intro normalize_correct) simp_all
qed

lemma operator_neg_r_I3:
  assumes "I3 a" "groups_le 72305 a"
  shows "\<exists>r. operator_neg_r a = Some r \<and> I3 r"
  unfolding operator_neg_r_def
  using I3_D [OF assms(1)] I3_groups(5,6) [OF assms] by (intro normalize_correct) simp_all

lemma sum_ok:
  assumes "canonical x" "canonical y" "length (a_digits x) \<le> k" "length (a_digits y) \<le> k"
  shows "canonical (plus_assign x y)" "canonical (minus_assign x y)"
    "length (a_digits (plus_assign x y)) \<le> Suc k"
    "length (a_digits (minus_assign x y)) \<le> Suc k"
proof -
  note rx = canonical_in_range [OF assms(1)] and ry = canonical_in_range [OF assms(2)]
  note p = plus_assign_correct [OF assms(1) canonicalD [OF assms(2)]]
  note m = minus_assign_correct [OF assms(1) canonicalD [OF assms(2)]]
  show "canonical (plus_assign x y)" "canonical (minus_assign x y)"
    by (rule p(1), rule m(1))
  have "\<bar>value_of (plus_assign x y)\<bar> \<le> \<bar>value_of x\<bar> + \<bar>value_of y\<bar>"
    unfolding p(2) by simp
  then show "length (a_digits (plus_assign x y)) \<le> Suc k"
    by (rule canonical_length_sum [OF p(1) rx ry _ assms(3,4)])
  have "\<bar>value_of (minus_assign x y)\<bar> \<le> \<bar>value_of x\<bar> + \<bar>value_of y\<bar>"
    unfolding m(2) by simp
  then show "length (a_digits (minus_assign x y)) \<le> Suc k"
    by (rule canonical_length_sum [OF m(1) rx ry _ assms(3,4)])
qed

lemma sum_r_I3:
  assumes "I3 a" "I3 b" "groups_le 72305 a" "groups_le 72305 b"
  shows "\<exists>r. plus_assign_r a b = Some r \<and> I3 r"
    and "\<exists>r. minus_assign_r a b = Some r \<and> I3 r"
proof -
  note A = I3_D [OF assms(1)] and B = I3_D [OF assms(2)]
  note ga = I3_groups [OF assms(1,3)] and gb = I3_groups [OF assms(2,4)]
  define num0 where "num0 = (numerator a)\<lparr>sign := r_sign a\<rparr>"
  define num1 where "num1 = times_assign num0 (denominator b)"
  define y where "y = operator_times (numerator b) (denominator a)"
  define den1 where "den1 = times_assign (denominator a) (denominator b)"
  have r0: "in_range (a_digits num0)" "a_digits num0 \<noteq> []" "length (a_digits num0) \<le> 72305"
    using ga(1,3,5) by (simp_all add: num0_def)
  note n1 = product_ok [OF r0(1) gb(2) r0(2,3) gb(6), folded num1_def]
  note ny = product_ok [OF gb(1) ga(2) gb(3,5) ga(6), folded operator_times_def, folded y_def]
  note d1 = product_ok [OF ga(2) gb(2) ga(4,6) gb(6), folded den1_def]
  have pd: "0 < value_of den1"
    using d1(2) A(4) B(4) by simp
  have l1: "length (a_digits num1) \<le> 144610" and ly: "length (a_digits y) \<le> 144610"
    and ld: "length (a_digits den1) \<le> 216917"
    using n1(3) ny(3) d1(3) by simp_all
  note s = sum_ok [OF n1(1) ny(1) l1 ly]
  have ls: "length (a_digits (plus_assign num1 y)) \<le> 216917"
    "length (a_digits (minus_assign num1 y)) \<le> 216917"
    using s(3,4) by simp_all
  have "\<exists>r. normalize \<lparr>numerator = (if r_sign b = plus_sign then plus_assign num1 y
                                       else minus_assign num1 y),
                        denominator = den1, r_sign = plus_sign\<rparr> = Some r \<and> I3 r"
    using s(1,2) ls d1(1) pd ld by (intro normalize_correct) simp_all
  then show "\<exists>r. plus_assign_r a b = Some r \<and> I3 r"
    unfolding plus_assign_r_def Let_def num1_def num0_def y_def den1_def .
  have "\<exists>r. normalize \<lparr>numerator = (if r_sign b = plus_sign then minus_assign num1 y
                                       else plus_assign num1 y),
                        denominator = den1, r_sign = plus_sign\<rparr> = Some r \<and> I3 r"
    using s(1,2) ls d1(1) pd ld by (intro normalize_correct) simp_all
  then show "\<exists>r. minus_assign_r a b = Some r \<and> I3 r"
    unfolding minus_assign_r_def Let_def num1_def num0_def y_def den1_def .
qed

subsection \<open>The operations applied to the object itself\<close>

lemma sum_r_self_I3:
  assumes "I3 a" "groups_le 72305 a"
  shows "\<exists>r. plus_assign_r_self a = Some r \<and> I3 r"
    and "\<exists>r. minus_assign_r_self a = Some r \<and> I3 r"
proof -
  note A = I3_D [OF assms(1)]
  note ga = I3_groups [OF assms]
  define num0 where "num0 = (numerator a)\<lparr>sign := r_sign a\<rparr>"
  define num1 where "num1 = times_assign num0 (denominator a)"
  define y where "y = operator_times num1 (denominator a)"
  define den1 where "den1 = times_assign (denominator a) (denominator a)"
  have r0: "in_range (a_digits num0)" "a_digits num0 \<noteq> []" "length (a_digits num0) \<le> 72305"
    using ga(1,3,5) by (simp_all add: num0_def)
  note n1 = product_ok [OF r0(1) ga(2) r0(2,3) ga(6), folded num1_def]
  have r1: "in_range (a_digits num1)" "a_digits num1 \<noteq> []" "length (a_digits num1) \<le> 144610"
    using n1(1,3) by (simp_all add: canonical_def digits_ok_def)
  note ny = product_ok [OF r1(1) ga(2) r1(2,3) ga(6), folded operator_times_def, folded y_def]
  note d1 = product_ok [OF ga(2) ga(2) ga(4,6) ga(6), folded den1_def]
  have pd: "0 < value_of den1"
    using d1(2) A(4) by simp
  have l1: "length (a_digits num1) \<le> 216915" and ly: "length (a_digits y) \<le> 216915"
    and ld: "length (a_digits den1) \<le> 216917"
    using n1(3) ny(3) d1(3) by simp_all
  note s = sum_ok [OF n1(1) ny(1) l1 ly]
  have ls: "length (a_digits (plus_assign num1 y)) \<le> 216917"
    "length (a_digits (minus_assign num1 y)) \<le> 216917"
    using s(3,4) by simp_all
  have "\<exists>r. normalize \<lparr>numerator = plus_assign num1 y, denominator = den1,
                        r_sign = plus_sign\<rparr> = Some r \<and> I3 r"
    using s(1) ls(1) d1(1) pd ld by (intro normalize_correct) simp_all
  then show "\<exists>r. plus_assign_r_self a = Some r \<and> I3 r"
    unfolding plus_assign_r_self_def Let_def num1_def num0_def y_def den1_def .
  have "\<exists>r. normalize \<lparr>numerator = minus_assign num1 y, denominator = den1,
                        r_sign = plus_sign\<rparr> = Some r \<and> I3 r"
    using s(2) ls(2) d1(1) pd ld by (intro normalize_correct) simp_all
  then show "\<exists>r. minus_assign_r_self a = Some r \<and> I3 r"
    unfolding minus_assign_r_self_def Let_def num1_def num0_def y_def den1_def .
qed

lemma divide_assign_r_self_I3:
  assumes "I3 a" "groups_le 72305 a" "\<not> is_zero (numerator a)"
  shows "\<exists>r. divide_assign_r_self a = Some r \<and> I3 r"
proof -
  note A = I3_D [OF assms(1)]
  note ga = I3_groups [OF assms(1,2)]
  define num1 where "num1 = times_assign (numerator a) (denominator a)"
  define den1 where "den1 = times_assign (denominator a) num1"
  note n1 = product_ok [OF ga(1) ga(2) ga(3,5) ga(6), folded num1_def]
  have r1: "in_range (a_digits num1)" "length (a_digits num1) \<le> 144610"
    using n1(1,3) by (simp_all add: canonical_def digits_ok_def)
  note d1 = product_ok [OF ga(2) r1(1) ga(4,6) r1(2), folded den1_def]
  have "0 < value_of (numerator a)"
    using A(1,3) assms(3) by (simp add: canonical_is_zero)
  then have pd: "0 < value_of den1"
    using d1(2) n1(2) A(4) by simp
  have "\<exists>r. normalize \<lparr>numerator = num1, denominator = den1,
                        r_sign = sign_mul (r_sign a) (r_sign a)\<rparr> = Some r \<and> I3 r"
    using n1(1,3) d1(1,3) pd by (intro normalize_correct) simp_all
  then show ?thesis
    unfolding divide_assign_r_self_def Let_def num1_def den1_def .
qed


subsection \<open>Division by a Rational of value zero\<close>

lemma bi_eqI: "a_digits x = ds \<Longrightarrow> sign x = s \<Longrightarrow> x = \<lparr>a_digits = ds, sign = s\<rparr>"
  by (cases x) simp

lemma times_one:
  assumes "canonical x"
  shows "times_assign x \<lparr>a_digits = [1], sign = plus_sign\<rparr> = x"
proof -
  let ?one = "\<lparr>a_digits = [1], sign = plus_sign\<rparr>"
  have r1: "in_range (a_digits ?one)"
    by (simp add: in_range_def)
  have m: "min (length (a_digits x)) (length (a_digits ?one)) \<le> 216917"
    by simp
  show ?thesis
    using times_assign_correct [OF canonical_in_range [OF assms] r1 m] assms
    by (intro canonical_inj) (simp_all add: value_of_def)
qed

lemma times_zero:
  assumes "in_range (a_digits x)"
  shows "times_assign x \<lparr>a_digits = [0], sign = plus_sign\<rparr> = \<lparr>a_digits = [0], sign = plus_sign\<rparr>"
proof -
  let ?zero = "\<lparr>a_digits = [0], sign = plus_sign\<rparr>"
  have r0: "in_range (a_digits ?zero)"
    by (simp add: in_range_def)
  have m: "min (length (a_digits x)) (length (a_digits ?zero)) \<le> 216917"
    by simp
  show ?thesis
    using times_assign_correct [OF assms r0 m]
    by (intro canonical_inj canonical_zero) (simp_all add: value_of_def)
qed

lemma divide_zero_by_zero:
  "divide_assign \<lparr>a_digits = [0], sign = plus_sign\<rparr> \<lparr>a_digits = [0], sign = plus_sign\<rparr>
   = Some \<lparr>a_digits = [99, 9], sign = plus_sign\<rparr>"
  by code_simp

lemma divide_assign_r_by_zero:
  assumes "I3 a" "I3 b" "is_zero (numerator b)"
  shows "divide_assign_r a b
         = Some (if is_zero (numerator a)
                 then \<lparr>numerator = \<lparr>a_digits = [99, 9], sign = plus_sign\<rparr>,
                       denominator = \<lparr>a_digits = [99, 9], sign = plus_sign\<rparr>,
                       r_sign = plus_sign\<rparr>
                 else \<lparr>numerator = \<lparr>a_digits = [1], sign = plus_sign\<rparr>,
                       denominator = \<lparr>a_digits = [0], sign = plus_sign\<rparr>,
                       r_sign = r_sign a\<rparr>)"
proof -
  let ?one = "\<lparr>a_digits = [1], sign = plus_sign\<rparr>" and ?zero = "\<lparr>a_digits = [0], sign = plus_sign\<rparr>"
  note A = I3_D [OF assms(1)]
  define n where "n = numerator a"
  have sn: "sign n = plus_sign" and cn: "canonical n"
    using assms(1) by (simp_all add: I3_def n_def)
  have nb: "numerator b = ?zero"
    using assms(2,3) by (intro bi_eqI) (simp_all add: I3_def is_zero_iff)
  have "is_one (denominator b)" and sb: "r_sign b = plus_sign"
    using assms(2,3) by (simp_all add: I3_def)
  then have "a_digits (denominator b) = [1]"
    by (cases "a_digits (denominator b)") (auto simp: is_one_def)
  then have db: "denominator b = ?one"
    using assms(2) by (intro bi_eqI) (simp_all add: I3_def)
  have num: "times_assign n (denominator b) = n"
    unfolding db by (rule times_one [OF cn])
  have den: "times_assign (denominator a) (numerator b) = ?zero"
    unfolding nb by (rule times_zero [OF canonical_in_range [OF A(2)]])
  have n1: "n\<lparr>sign := plus_sign\<rparr> = n"
    using sn by (cases n) simp
  have g: "gcd_bi n ?zero = Some n"
    by (subst gcd_bi.simps) (simp add: is_zero_def)
  have sg: "sign_mul (sign_mul (r_sign a) (r_sign b)) (sign n) = r_sign a"
    using sign_cases [of "r_sign a"] by (auto simp: sb sn sign_mul_def)
  have unf: "divide_assign_r a b
      = (if is_one n
         then Some \<lparr>numerator = n, denominator = ?zero,
                    r_sign = (if is_zero n then plus_sign else r_sign a)\<rparr>
         else (case divide_assign n n of
                 None \<Rightarrow> None
               | Some num2 \<Rightarrow>
                   (case divide_assign ?zero n of
                      None \<Rightarrow> None
                    | Some den2 \<Rightarrow>
                        Some \<lparr>numerator = num2, denominator = den2,
                              r_sign = (if is_zero n then plus_sign else r_sign a)\<rparr>)))"
    unfolding divide_assign_r_def normalize_def Let_def n_def [symmetric]
    by (simp add: num den n1 g sg cong: option.case_cong)
  show ?thesis
  proof (cases "is_one n")
    case True
    then have "a_digits n = [1]"
      by (cases "a_digits n") (auto simp: is_one_def)
    then have "n = ?one"
      using sn by (intro bi_eqI)
    then show ?thesis
      unfolding unf n_def [symmetric] by (simp add: is_one_def is_zero_def)
  next
    case False
    show ?thesis
    proof (cases "is_zero n")
      case True
      then have "n = ?zero"
        using sn by (intro bi_eqI) (simp_all add: is_zero_iff)
      then show ?thesis
        unfolding unf n_def [symmetric] by (simp add: divide_zero_by_zero is_one_def is_zero_def)
    next
      case nz: False
      have vn: "value_of n \<noteq> 0"
        using nz cn by (simp add: canonical_is_zero)
      obtain q where q: "divide_assign n n = Some q" "canonical q"
          "value_of q = value_of n sdiv value_of n"
        using divide_assign_correct [OF cn cn nz] by blast
      have "value_of q = 1"
        unfolding q(3) using vn by (simp add: signed_divide_int_def)
      then have q1: "q = ?one"
        using q(2) by (intro canonical_inj canonical_one) (simp_all add: value_of_def)
      obtain z where z: "divide_assign ?zero n = Some z" "canonical z"
          "value_of z = value_of ?zero sdiv value_of n"
        using divide_assign_correct [OF canonical_zero cn nz] by blast
      have "value_of z = 0"
        unfolding z(3) by (simp add: value_of_def signed_divide_int_def)
      then have z0: "z = ?zero"
        using z(2) by (intro canonical_inj canonical_zero) (simp_all add: value_of_def)
      show ?thesis
        unfolding unf n_def [symmetric] using False nz by (simp add: q(1) q1 z(1) z0)
    qed
  qed
qed

lemma divide_assign_r_by_zero_not_I3:
  assumes "I3 a" "I3 b" "is_zero (numerator b)"
  shows "\<exists>r. divide_assign_r a b = Some r \<and> \<not> I3 r"
proof -
  have "\<not> I3 \<lparr>numerator = \<lparr>a_digits = [99, 9], sign = plus_sign\<rparr>,
               denominator = \<lparr>a_digits = [99, 9], sign = plus_sign\<rparr>, r_sign = plus_sign\<rparr>"
    by (simp add: I3_def value_of_def)
  moreover have "\<not> I3 \<lparr>numerator = \<lparr>a_digits = [1], sign = plus_sign\<rparr>,
               denominator = \<lparr>a_digits = [0], sign = plus_sign\<rparr>, r_sign = r_sign a\<rparr>"
    by (simp add: I3_def is_zero_def)
  ultimately show ?thesis
    unfolding divide_assign_r_by_zero [OF assms] by simp
qed


subsection \<open>The operations at concrete fractions\<close>

lemma times_assign_eqI:
  assumes "in_range (a_digits x)" "in_range (a_digits y)"
    "min (length (a_digits x)) (length (a_digits y)) \<le> 216917"
    "canonical z" "value_of z = value_of x * value_of y"
  shows "times_assign x y = z"
  using times_assign_correct [OF assms(1,2,3)] assms(4,5) by (intro canonical_inj) simp_all

lemma normalize_eqI:
  assumes "canonical (numerator r)" "canonical (denominator r)" "0 < value_of (denominator r)"
    "length (a_digits (numerator r)) \<le> 216917" "length (a_digits (denominator r)) \<le> 216917"
    "canonical n" "canonical d"
    "value_of n = \<bar>value_of (numerator r)\<bar> div gcd (value_of (numerator r)) (value_of (denominator r))"
    "value_of d = value_of (denominator r) div gcd (value_of (numerator r)) (value_of (denominator r))"
    "s = (if is_zero (numerator r) then plus_sign else sign_mul (r_sign r) (sign (numerator r)))"
  shows "normalize r = Some \<lparr>numerator = n, denominator = d, r_sign = s\<rparr>"
proof -
  obtain r' where r': "normalize r = Some r'" "I3 r'"
      "value_of (numerator r') = \<bar>value_of (numerator r)\<bar> div gcd (value_of (numerator r)) (value_of (denominator r))"
      "value_of (denominator r') = value_of (denominator r) div gcd (value_of (numerator r)) (value_of (denominator r))"
      "r_sign r' = (if is_zero (numerator r) then plus_sign
                    else sign_mul (r_sign r) (sign (numerator r)))"
    using normalize_result [OF assms(1-5)] by blast
  have "numerator r' = n"
    using I3_D(1) [OF r'(2)] assms(6) r'(3) assms(8) by (intro canonical_inj) simp_all
  moreover have "denominator r' = d"
    using I3_D(2) [OF r'(2)] assms(7) r'(4) assms(9) by (intro canonical_inj) simp_all
  ultimately have "r' = \<lparr>numerator = n, denominator = d, r_sign = s\<rparr>"
    using r'(5) assms(10) by (cases r') simp
  then show ?thesis
    using r'(1) by simp
qed

lemma canonical_digit: "0 < d \<Longrightarrow> d < 100 \<Longrightarrow> canonical \<lparr>a_digits = [d], sign = s\<rparr>"
  by (simp add: canonical_def digits_ok_def in_range_def is_zero_def)

lemma gcd_6_4: "gcd (6::int) 4 = 2"
  by code_simp

lemma gcd_2_4: "gcd (2::int) 4 = 2"
  by code_simp

lemma gcd_9_18: "gcd (9::int) 18 = 9"
  by code_simp

lemma plus_assign_r_self_half:
  "plus_assign_r_self \<lparr>numerator = \<lparr>a_digits = [1], sign = plus_sign\<rparr>,
                        denominator = \<lparr>a_digits = [2], sign = plus_sign\<rparr>, r_sign = plus_sign\<rparr>
   = Some \<lparr>numerator = \<lparr>a_digits = [3], sign = plus_sign\<rparr>,
           denominator = \<lparr>a_digits = [2], sign = plus_sign\<rparr>, r_sign = plus_sign\<rparr>"
proof -
  let ?one = "\<lparr>a_digits = [1], sign = plus_sign\<rparr>" and ?two = "\<lparr>a_digits = [2], sign = plus_sign\<rparr>"
  let ?four = "\<lparr>a_digits = [4], sign = plus_sign\<rparr>" and ?six = "\<lparr>a_digits = [6], sign = plus_sign\<rparr>"
  have t1: "times_assign ?one ?two = ?two"
    by (rule times_assign_eqI) (simp_all add: in_range_def canonical_digit value_of_def)
  have t2: "times_assign ?two ?two = ?four"
    by (rule times_assign_eqI) (simp_all add: in_range_def canonical_digit value_of_def)
  have p: "plus_assign ?two ?four = ?six"
    by code_simp
  have n: "normalize \<lparr>numerator = ?six, denominator = ?four, r_sign = plus_sign\<rparr>
           = Some \<lparr>numerator = \<lparr>a_digits = [3], sign = plus_sign\<rparr>, denominator = ?two,
                   r_sign = plus_sign\<rparr>"
    by (rule normalize_eqI)
      (simp_all add: canonical_digit value_of_def gcd_6_4 is_zero_def sign_mul_def)
  show ?thesis
    by (simp add: plus_assign_r_self_def operator_times_def t1 t2 p n)
qed

lemma minus_assign_r_self_half:
  "minus_assign_r_self \<lparr>numerator = \<lparr>a_digits = [1], sign = plus_sign\<rparr>,
                         denominator = \<lparr>a_digits = [2], sign = plus_sign\<rparr>, r_sign = plus_sign\<rparr>
   = Some \<lparr>numerator = \<lparr>a_digits = [1], sign = plus_sign\<rparr>,
           denominator = \<lparr>a_digits = [2], sign = plus_sign\<rparr>, r_sign = minus_sign\<rparr>"
proof -
  let ?one = "\<lparr>a_digits = [1], sign = plus_sign\<rparr>" and ?two = "\<lparr>a_digits = [2], sign = plus_sign\<rparr>"
  let ?four = "\<lparr>a_digits = [4], sign = plus_sign\<rparr>" and ?m2 = "\<lparr>a_digits = [2], sign = minus_sign\<rparr>"
  have t1: "times_assign ?one ?two = ?two"
    by (rule times_assign_eqI) (simp_all add: in_range_def canonical_digit value_of_def)
  have t2: "times_assign ?two ?two = ?four"
    by (rule times_assign_eqI) (simp_all add: in_range_def canonical_digit value_of_def)
  have p: "minus_assign ?two ?four = ?m2"
    by code_simp
  have n: "normalize \<lparr>numerator = ?m2, denominator = ?four, r_sign = plus_sign\<rparr>
           = Some \<lparr>numerator = ?one, denominator = ?two, r_sign = minus_sign\<rparr>"
    by (rule normalize_eqI)
      (simp_all add: canonical_digit value_of_def gcd_2_4 is_zero_def sign_mul_def)
  show ?thesis
    by (simp add: minus_assign_r_self_def operator_times_def t1 t2 p n)
qed

lemma divide_assign_r_self_half:
  "divide_assign_r_self \<lparr>numerator = \<lparr>a_digits = [1], sign = plus_sign\<rparr>,
                          denominator = \<lparr>a_digits = [2], sign = plus_sign\<rparr>, r_sign = plus_sign\<rparr>
   = Some \<lparr>numerator = \<lparr>a_digits = [1], sign = plus_sign\<rparr>,
           denominator = \<lparr>a_digits = [2], sign = plus_sign\<rparr>, r_sign = plus_sign\<rparr>"
proof -
  let ?one = "\<lparr>a_digits = [1], sign = plus_sign\<rparr>" and ?two = "\<lparr>a_digits = [2], sign = plus_sign\<rparr>"
  let ?four = "\<lparr>a_digits = [4], sign = plus_sign\<rparr>"
  have t1: "times_assign ?one ?two = ?two"
    by (rule times_assign_eqI) (simp_all add: in_range_def canonical_digit value_of_def)
  have t2: "times_assign ?two ?two = ?four"
    by (rule times_assign_eqI) (simp_all add: in_range_def canonical_digit value_of_def)
  have n: "normalize \<lparr>numerator = ?two, denominator = ?four, r_sign = plus_sign\<rparr>
           = Some \<lparr>numerator = ?one, denominator = ?two, r_sign = plus_sign\<rparr>"
    by (rule normalize_eqI)
      (simp_all add: canonical_digit value_of_def gcd_2_4 is_zero_def sign_mul_def)
  show ?thesis
    by (simp add: divide_assign_r_self_def t1 t2 n sign_mul_def)
qed

lemma plus_assign_r_third_sixth:
  "plus_assign_r \<lparr>numerator = \<lparr>a_digits = [1], sign = plus_sign\<rparr>,
                   denominator = \<lparr>a_digits = [3], sign = plus_sign\<rparr>, r_sign = plus_sign\<rparr>
                 \<lparr>numerator = \<lparr>a_digits = [1], sign = plus_sign\<rparr>,
                   denominator = \<lparr>a_digits = [6], sign = plus_sign\<rparr>, r_sign = plus_sign\<rparr>
   = Some \<lparr>numerator = \<lparr>a_digits = [1], sign = plus_sign\<rparr>,
           denominator = \<lparr>a_digits = [2], sign = plus_sign\<rparr>, r_sign = plus_sign\<rparr>"
proof -
  let ?one = "\<lparr>a_digits = [1], sign = plus_sign\<rparr>" and ?two = "\<lparr>a_digits = [2], sign = plus_sign\<rparr>"
  let ?three = "\<lparr>a_digits = [3], sign = plus_sign\<rparr>" and ?six = "\<lparr>a_digits = [6], sign = plus_sign\<rparr>"
  let ?nine = "\<lparr>a_digits = [9], sign = plus_sign\<rparr>" and ?e = "\<lparr>a_digits = [18], sign = plus_sign\<rparr>"
  have t1: "times_assign ?one ?six = ?six"
    by (rule times_assign_eqI) (simp_all add: in_range_def canonical_digit value_of_def)
  have t2: "times_assign ?one ?three = ?three"
    by (rule times_assign_eqI) (simp_all add: in_range_def canonical_digit value_of_def)
  have t3: "times_assign ?three ?six = ?e"
    by (rule times_assign_eqI) (simp_all add: in_range_def canonical_digit value_of_def)
  have p: "plus_assign ?six ?three = ?nine"
    by code_simp
  have n: "normalize \<lparr>numerator = ?nine, denominator = ?e, r_sign = plus_sign\<rparr>
           = Some \<lparr>numerator = ?one, denominator = ?two, r_sign = plus_sign\<rparr>"
    by (rule normalize_eqI)
      (simp_all add: canonical_digit value_of_def gcd_9_18 is_zero_def sign_mul_def)
  show ?thesis
    by (simp add: plus_assign_r_def operator_times_def t1 t2 t3 p n)
qed

subsection \<open>Decimal rendering with no fractional digits\<close>

lemma BigInteger_string_one: "BigInteger_string ''1'' = \<lparr>a_digits = [1], sign = plus_sign\<rparr>"
  by code_simp

lemma asDecimal_zero_precision:
  assumes "digits_ok (a_digits n)"
  shows "\<exists>s. toString n = Some s \<and> asDecimal (Rational_bi n) 0 = Some (s @ ''.'')"
proof -
  let ?one = "\<lparr>a_digits = [1], sign = plus_sign\<rparr>"
  define m where "m = n\<lparr>sign := plus_sign\<rparr>"
  have cm: "canonical m"
    using assms by (simp add: m_def canonical_def)
  have t: "times_assign m ?one = m"
    by (rule times_one [OF cm])
  have z1: "\<not> is_zero ?one"
    by (simp add: is_zero_def)
  obtain q where q: "divide_assign m ?one = Some q" "canonical q"
      "value_of q = value_of m sdiv value_of ?one"
    using divide_assign_correct [OF cm canonical_one z1] by blast
  have v1: "value_of ?one = 1"
    by (simp add: value_of_def)
  have "value_of q = value_of m"
    unfolding q(3) v1 by (simp add: signed_divide_int_def mult_sgn_abs)
  then have qm: "q = m"
    using q(2) cm by (intro canonical_inj)
  obtain body where b: "toString m = Some body" "body \<noteq> []"
    using toString_ok [of m] assms by (auto simp: m_def)
  have tn: "toString n = Some ((if sign n = minus_sign then [CHR ''-''] else []) @ body)"
    using b(1) unfolding toString_def m_def
    by (auto simp: Let_def split: if_splits option.splits)
  have num: "numerator (Rational_bi n) = m" and den: "denominator (Rational_bi n) = ?one"
    and sg: "r_sign (Rational_bi n) = sign n"
    unfolding Rational_bi_def one_eq m_def by simp_all
  have s1: "CHR ''1'' # replicate 0 CHR ''0'' = ''1''"
    by simp
  have "asDecimal (Rational_bi n) 0
        = Some ((if sign n = minus_sign then [CHR ''-''] else []) @ body @ ''.'')"
    unfolding asDecimal_def num den sg s1 BigInteger_string_one operator_times_def Let_def t
    using b(2) by (simp add: q(1) qm b(1))
  then show ?thesis
    using tn by simp
qed


section \<open>The limit of the multiplication\<close>





subsection \<open>A segment of the carry loop\<close>







lemma val_digits_zeros [simp]: "val_digits (replicate k 0) = 0"
  by (induction k) simp_all




subsection \<open>The remainder at these operands\<close>




section \<open>The zero of negative sign\<close>

lemma parse_minus_zero: "BigInteger_string ''-0'' = \<lparr>a_digits = [0], sign = minus_sign\<rparr>"
  by code_simp

lemma minus_zero_not_canonical: "\<not> canonical \<lparr>a_digits = [0], sign = minus_sign\<rparr>"
  by (simp add: canonical_def is_zero_def)






section \<open>Claims\<close>

text \<open>
  C10.  The constructor from a machine integer takes the absolute value of its argument
  and splits it into base-100 groups.  For every \<^verbatim>\<open>int\<close> other than \<^verbatim>\<open>INT_MIN\<close> the
  result is the canonical representation of the argument: the groups are in range with
  no zero group at the top, the value is the argument, the sign is negative exactly
  when the argument is below zero, and zero is the single group 0 with the positive
  sign.  At \<^verbatim>\<open>INT_MIN\<close> the absolute value overflows and the constructor has no result.
\<close>

theorem BigInteger_int_canonical:
  "case BigInteger_int x of
     None \<Rightarrow> sint x = - (2 ^ 31)
   | Some r \<Rightarrow> sint x \<noteq> - (2 ^ 31) \<and> canonical r \<and> value_of r = sint x
               \<and> (sign r = minus_sign \<longleftrightarrow> sint x < 0)
               \<and> (sint x = 0 \<longrightarrow> r = \<lparr>a_digits = [0], sign = plus_sign\<rparr>)"
proof (cases "sint x = - (2 ^ 31)")
  case True
  then show ?thesis by (simp add: BigInteger_int_def)
next
  case False
  obtain ds where ds: "int_groups \<bar>sint x\<bar> [] = ds" "ds \<noteq> []"
      "list_all (\<lambda>d. 0 \<le> d \<and> d < 100) ds" "val_digits ds = \<bar>sint x\<bar>"
      "0 < \<bar>sint x\<bar> \<longrightarrow> last ds \<noteq> 0"
    using int_groups_shape [of "\<bar>sint x\<bar>" "[]"] by auto
  define r where "r = \<lparr>a_digits = ds, sign = sgn_of (sint x)\<rparr>"
  have r: "BigInteger_int x = Some r"
    using False ds(1) by (simp add: BigInteger_int_def r_def)
  have sg: "sign r = minus_sign \<longleftrightarrow> sint x < 0"
    by (simp add: r_def sgn_of_def)
  have top: "length ds > 1 \<longrightarrow> last ds \<noteq> 0"
  proof
    assume "length ds > 1"
    show "last ds \<noteq> 0"
    proof (cases "\<bar>sint x\<bar> = 0")
      case True
      then have "int_groups \<bar>sint x\<bar> [] = [0]"
        using int_groups_stop [of 0 "[]"] by (simp add: base_def)
      with ds(1) \<open>length ds > 1\<close> show ?thesis by auto
    next
      case False
      with ds(5) show ?thesis by simp
    qed
  qed
  have zero: "is_zero r \<longrightarrow> sint x = 0"
  proof
    assume "is_zero r"
    then have "ds = [0]"
      by (cases ds) (auto simp: is_zero_def r_def)
    with ds(4) show "sint x = 0" by simp
  qed
  have can: "canonical r"
    using ds(2,3) top zero sg by (auto simp: canonical_def digits_ok_def in_range_def r_def sgn_of_def)
  have v: "value_of r = sint x"
    using ds(4) by (auto simp: value_of_def r_def sgn_of_def)
  have z: "sint x = 0 \<longrightarrow> r = \<lparr>a_digits = [0], sign = plus_sign\<rparr>"
  proof
    assume z0: "sint x = 0"
    then have "int_groups \<bar>sint x\<bar> [] = [0]"
      using int_groups_stop [of 0 "[]"] by (simp add: base_def)
    with ds(1) z0 show "r = \<lparr>a_digits = [0], sign = plus_sign\<rparr>"
      by (simp add: r_def sgn_of_def)
  qed
  show ?thesis
    using r False can v sg z by simp
qed

theorem BigInteger_int_canonical_witness:
  "BigInteger_int (- 1234) = Some \<lparr>a_digits = [34, 12], sign = minus_sign\<rparr>
   \<and> canonical \<lparr>a_digits = [34, 12], sign = minus_sign\<rparr>
   \<and> value_of \<lparr>a_digits = [34, 12], sign = minus_sign\<rparr> = - 1234
   \<and> BigInteger_int (- 2147483648) = None"
proof -
  have g: "int_groups 1234 [] = [34, 12]"
    by (simp add: int_groups_more int_groups_stop base_def signed_divide_int_def
        signed_modulo_int_def)
  have e: "BigInteger_int (- 1234) = Some \<lparr>a_digits = [34, 12], sign = minus_sign\<rparr>"
    by (simp add: BigInteger_int_def g sgn_of_def)
  have n: "BigInteger_int (- 2147483648) = None"
    by (simp add: BigInteger_int_def)
  show ?thesis
    using BigInteger_int_canonical [of "- 1234"] e n by simp
qed


text \<open>
  C7.  For BigInteger values \<open>a\<close> and \<open>b\<close> with well-formed digit vectors, of any signs
  and magnitudes, \<^verbatim>\<open>a + b - b\<close> is the canonical representation of the value of \<open>a\<close>.
  The comparison \<^verbatim>\<open>a + b - b == a\<close> is true exactly when \<open>a\<close> itself is canonical, and
  then the two are the same vector and sign.  It is false for the zero of negative
  sign, which the parse constructor returns for \<^verbatim>\<open>"-0"\<close>: there the result is the zero of
  positive sign.
\<close>

theorem add_then_subtract:
  assumes "digits_ok (a_digits a)" "digits_ok (a_digits b)"
  shows "canonical (operator_minus (operator_plus a b) b)
         \<and> value_of (operator_minus (operator_plus a b) b) = value_of a
         \<and> (equal_bi (operator_minus (operator_plus a b) b) a \<longleftrightarrow> canonical a)
         \<and> (canonical a \<longrightarrow> operator_minus (operator_plus a b) b = a)"
proof -
  define r where "r = operator_minus (operator_plus a b) b"
  have r: "canonical r" "value_of r = value_of a"
    unfolding r_def by (rule add_subtract_result [OF assms])+
  have e: "r = a" if "canonical a"
    using r that by (intro canonical_inj)
  have "equal_bi r a \<longleftrightarrow> r = a"
    unfolding equal_bi_iff by (cases r; cases a) simp
  then have "equal_bi r a \<longleftrightarrow> canonical a"
    using r(1) e by auto
  then show ?thesis
    using r e unfolding r_def by simp
qed

theorem add_then_subtract_witness:
  "digits_ok (a_digits (BigInteger_string ''-0''))
   \<and> digits_ok (a_digits \<lparr>a_digits = [5], sign = plus_sign\<rparr>)
   \<and> BigInteger_string ''-0'' = \<lparr>a_digits = [0], sign = minus_sign\<rparr>
   \<and> operator_minus (operator_plus (BigInteger_string ''-0'') \<lparr>a_digits = [5], sign = plus_sign\<rparr>)
        \<lparr>a_digits = [5], sign = plus_sign\<rparr> = \<lparr>a_digits = [0], sign = plus_sign\<rparr>
   \<and> \<not> equal_bi (operator_minus (operator_plus (BigInteger_string ''-0'')
                      \<lparr>a_digits = [5], sign = plus_sign\<rparr>) \<lparr>a_digits = [5], sign = plus_sign\<rparr>)
          (BigInteger_string ''-0'')
   \<and> equal_bi (operator_minus (operator_plus \<lparr>a_digits = [99, 9], sign = plus_sign\<rparr>
                    \<lparr>a_digits = [1], sign = minus_sign\<rparr>) \<lparr>a_digits = [1], sign = minus_sign\<rparr>)
        \<lparr>a_digits = [99, 9], sign = plus_sign\<rparr>"
proof -
  let ?z = "\<lparr>a_digits = [0], sign = minus_sign\<rparr>" and ?five = "\<lparr>a_digits = [5], sign = plus_sign\<rparr>"
  let ?a = "\<lparr>a_digits = [99, 9], sign = plus_sign\<rparr>" and ?b = "\<lparr>a_digits = [1], sign = minus_sign\<rparr>"
  have d: "digits_ok (a_digits ?z)" "digits_ok (a_digits ?five)" "digits_ok (a_digits ?a)"
    "digits_ok (a_digits ?b)"
    by (simp_all add: digits_ok_def in_range_def)
  have ca: "canonical ?a"
    by (simp add: canonical_def digits_ok_def in_range_def is_zero_def)
  note z = add_then_subtract [OF d(1,2)]
  have "operator_minus (operator_plus ?z ?five) ?five = \<lparr>a_digits = [0], sign = plus_sign\<rparr>"
    using z by (intro canonical_inj canonical_zero) (simp_all add: value_of_def)
  then show ?thesis
    using z add_then_subtract [OF d(3,4)] d ca minus_zero_not_canonical
    by (simp add: parse_minus_zero equal_bi_iff)
qed


text \<open>
  C5.  For every canonical BigInteger \<open>x\<close>, \<^verbatim>\<open>toString\<close> returns a string, and the parse
  constructor applied to that string gives a value equal to \<open>x\<close> (the same groups and
  the same sign, which is what \<^verbatim>\<open>operator==\<close> compares).
\<close>

theorem toString_parse_roundtrip:
  assumes "canonical x"
  shows "\<exists>s. toString x = Some s \<and> BigInteger_string s = x \<and> equal_bi (BigInteger_string s) x"
proof -
  have dx: "digits_ok (a_digits x)"
    using assms by (rule canonicalD)
  obtain body where b: "toString x = Some ((if sign x = minus_sign then [CHR ''-''] else []) @ body)"
      "digit_string body" "body \<noteq> []" "dec_val body = val_digits (a_digits x)"
    using toString_ok [OF dx] by blast
  let ?s = "(if sign x = minus_sign then [CHR ''-''] else []) @ body"
  have "digits_ok (a_digits (BigInteger_string ?s))
        \<and> val_digits (a_digits (BigInteger_string ?s)) = dec_val body
        \<and> sign (BigInteger_string ?s) = sign x"
    using BigInteger_string_digits [OF b(2,3)] BigInteger_string_minus_digits [OF b(2,3)]
      sign_cases [of "sign x"] by auto
  then have "a_digits (BigInteger_string ?s) = a_digits x" "sign (BigInteger_string ?s) = sign x"
    using dx b(4) by (auto intro: digits_ok_inj)
  then have "BigInteger_string ?s = x"
    by simp
  then show ?thesis
    using b(1) by (simp add: equal_bi_iff)
qed

theorem toString_parse_roundtrip_witness:
  "canonical \<lparr>a_digits = [5, 1], sign = minus_sign\<rparr>
   \<and> toString \<lparr>a_digits = [5, 1], sign = minus_sign\<rparr> = Some ''-105''
   \<and> BigInteger_string ''-105'' = \<lparr>a_digits = [5, 1], sign = minus_sign\<rparr>"
proof -
  have c: "canonical \<lparr>a_digits = [5, 1], sign = minus_sign\<rparr>"
    by (simp add: canonical_def digits_ok_def is_zero_def)
  have t: "toString \<lparr>a_digits = [5, 1], sign = minus_sign\<rparr> = Some ''-105''"
    by code_simp
  show ?thesis
    using toString_parse_roundtrip [OF c] c t by auto
qed


text \<open>
  C4.  The parse constructor strips the zero groups at the top but leaves the sign it
  read: on the valid literal \<^verbatim>\<open>"-0"\<close> it returns the single group 0 with the negative
  sign, which is not canonical, and \<^verbatim>\<open>toString\<close> prints it back as \<^verbatim>\<open>"-0"\<close> instead of
  the canonical form \<^verbatim>\<open>"0"\<close>.
\<close>

theorem parse_minus_zero_keeps_sign:
  "BigInteger_string ''-0'' = \<lparr>a_digits = [0], sign = minus_sign\<rparr>
   \<and> is_zero (BigInteger_string ''-0'')
   \<and> toString (BigInteger_string ''-0'') = Some ''-0''
   \<and> \<not> equal_bi (BigInteger_string ''-0'') (BigInteger_string ''0'')"
proof -
  have p: "BigInteger_string ''-0'' = \<lparr>a_digits = [0], sign = minus_sign\<rparr>"
    by code_simp
  have q: "BigInteger_string ''0'' = \<lparr>a_digits = [0], sign = plus_sign\<rparr>"
    by code_simp
  have t: "toString \<lparr>a_digits = [0], sign = minus_sign\<rparr> = Some ''-0''"
    by code_simp
  show ?thesis
    by (simp add: p q t is_zero_def equal_bi_def)
qed


text \<open>
  C2 (as the code has it).  \<^verbatim>\<open>operator/=\<close> has no check for a zero divisor and nothing
  in the class signals an error.  For a canonical dividend \<open>a\<close> and a divisor whose
  magnitude is zero, every one of the \<open>2 * size(a) + 1\<close> quotient digits comes out as 9:
  the division ends and returns the canonical value \<open>10 ^ (2 * size(a) + 1) - 1\<close>,
  negated when the signs of the operands differ.  The modulo, computed from that
  quotient, ends as well and returns the dividend unchanged.
\<close>

theorem division_by_zero_returns:
  assumes "canonical a" "a_digits x = [0]"
  shows "(\<exists>q. operator_div a x = Some q \<and> canonical q
           \<and> value_of q = (if sign a = sign x then 1 else - 1)
                            * (10 ^ (2 * length (a_digits a) + 1) - 1))
         \<and> operator_mod a x = Some a"
  using divide_by_zero [OF assms] mod_by_zero [OF assms]
  by (auto simp: operator_div_def operator_mod_def sign_mul_def)

theorem division_by_zero_returns_witness:
  "canonical \<lparr>a_digits = [5], sign = minus_sign\<rparr>
   \<and> a_digits \<lparr>a_digits = [0], sign = plus_sign\<rparr> = [0]
   \<and> (\<exists>q. operator_div \<lparr>a_digits = [5], sign = minus_sign\<rparr> \<lparr>a_digits = [0], sign = plus_sign\<rparr>
              = Some q \<and> value_of q = - 999)"
proof -
  have c: "canonical \<lparr>a_digits = [5], sign = minus_sign\<rparr>"
    by (simp add: canonical_def digits_ok_def is_zero_def)
  have z: "a_digits \<lparr>a_digits = [0], sign = plus_sign\<rparr> = [0]"
    by simp
  show ?thesis
    using division_by_zero_returns [OF c z] c by auto
qed

theorem division_by_zero_counterexample:
  "operator_div \<lparr>a_digits = [5], sign = plus_sign\<rparr> \<lparr>a_digits = [0], sign = plus_sign\<rparr>
   = Some \<lparr>a_digits = [99, 9], sign = plus_sign\<rparr>"
  unfolding operator_div_def by code_simp


text \<open>
  C8.  Multiplication is commutative: for all BigInteger values \<open>a\<close> and \<open>b\<close> the
  products \<^verbatim>\<open>a * b\<close> and \<^verbatim>\<open>b * a\<close> are the same vector with the same sign, and
  \<^verbatim>\<open>operator==\<close> holds between them.  The padded size, the point-wise product of the two
  transforms and the product of the signs are symmetric in the operands, and everything
  after the point-wise product depends on the operands only through it.
\<close>

theorem multiplication_commutes:
  "operator_times a b = operator_times b a \<and> equal_bi (operator_times a b) (operator_times b a)"
proof -
  have "operator_times a b = operator_times b a"
    unfolding operator_times_def by (rule times_assign_commute)
  then show ?thesis
    by (simp add: equal_bi_iff)
qed










text \<open>
  C3.  The public operations of \<^verbatim>\<open>Rational\<close> establish the invariant I3, except the
  division by a \<^verbatim>\<open>Rational\<close> of value zero.  The default constructor, the constructor
  from a canonical BigInteger and the constructor from an \<^verbatim>\<open>int\<close> other than \<^verbatim>\<open>INT_MIN\<close>
  return a state that satisfies I3.  On operands that satisfy I3 and whose numerators
  and denominators have at most 72305 groups each, \<^verbatim>\<open>+=\<close>, \<^verbatim>\<open>-=\<close>, \<^verbatim>\<open>*=\<close>, unary minus and
  \<^verbatim>\<open>/=\<close> by a divisor whose numerator is not zero return, and the state they return
  satisfies I3: numerator and denominator are canonical and of positive sign, the
  denominator is not zero, the two have greatest common divisor 1, and a zero numerator
  comes with the denominator 1 and the positive sign.  The same holds for the calls
  \<^verbatim>\<open>a += a\<close>, \<^verbatim>\<open>a -= a\<close>, \<^verbatim>\<open>a *= a\<close> and, for \<open>a\<close> not zero, \<^verbatim>\<open>a /= a\<close>, in which the operand is
  the object itself.  The bound keeps the products inside these operations within the
  limit of the multiplication.  \<^verbatim>\<open>operator/=\<close> does not test its divisor: the division by
  a \<^verbatim>\<open>Rational\<close> whose numerator is zero returns too, and the state it returns violates
  I3.
\<close>

theorem rational_operations_keep_I3:
  assumes "I3 a" "I3 b" "groups_le 72305 a" "groups_le 72305 b" "canonical n"
  shows "I3 Rational_default \<and> I3 (Rational_bi n)
         \<and> (sint x \<noteq> - (2 ^ 31) \<longrightarrow> (\<exists>r. Rational_int x = Some r \<and> I3 r))
         \<and> (\<exists>r. plus_assign_r a b = Some r \<and> I3 r)
         \<and> (\<exists>r. minus_assign_r a b = Some r \<and> I3 r)
         \<and> (\<exists>r. times_assign_r a b = Some r \<and> I3 r)
         \<and> (\<not> is_zero (numerator b) \<longrightarrow> (\<exists>r. divide_assign_r a b = Some r \<and> I3 r))
         \<and> (is_zero (numerator b) \<longrightarrow> (\<exists>r. divide_assign_r a b = Some r \<and> \<not> I3 r))
         \<and> (\<exists>r. operator_neg_r a = Some r \<and> I3 r)
         \<and> (\<exists>r. plus_assign_r_self a = Some r \<and> I3 r)
         \<and> (\<exists>r. minus_assign_r_self a = Some r \<and> I3 r)
         \<and> (\<exists>r. times_assign_r a a = Some r \<and> I3 r)
         \<and> (\<not> is_zero (numerator a) \<longrightarrow> (\<exists>r. divide_assign_r_self a = Some r \<and> I3 r))"
  using Rational_default_I3 Rational_bi_I3 [OF assms(5)] Rational_int_I3 [of x]
    sum_r_I3 [OF assms(1,2,3,4)] times_assign_r_I3 [OF assms(1,2,3,4)]
    divide_assign_r_I3 [OF assms(1,2,3,4)] divide_assign_r_by_zero_not_I3 [OF assms(1,2)]
    operator_neg_r_I3 [OF assms(1,3)] sum_r_self_I3 [OF assms(1,3)]
    times_assign_r_I3 [OF assms(1,1,3,3)] divide_assign_r_self_I3 [OF assms(1,3)]
  by blast

theorem rational_operations_keep_I3_witness:
  "I3 \<lparr>numerator = \<lparr>a_digits = [1], sign = plus_sign\<rparr>,
       denominator = \<lparr>a_digits = [3], sign = plus_sign\<rparr>, r_sign = minus_sign\<rparr>
   \<and> I3 \<lparr>numerator = \<lparr>a_digits = [1], sign = plus_sign\<rparr>,
         denominator = \<lparr>a_digits = [6], sign = plus_sign\<rparr>, r_sign = plus_sign\<rparr>
   \<and> groups_le 72305 \<lparr>numerator = \<lparr>a_digits = [1], sign = plus_sign\<rparr>,
         denominator = \<lparr>a_digits = [3], sign = plus_sign\<rparr>, r_sign = minus_sign\<rparr>
   \<and> groups_le 72305 \<lparr>numerator = \<lparr>a_digits = [1], sign = plus_sign\<rparr>,
         denominator = \<lparr>a_digits = [6], sign = plus_sign\<rparr>, r_sign = plus_sign\<rparr>
   \<and> canonical \<lparr>a_digits = [5], sign = minus_sign\<rparr>
   \<and> I3 (Rational_bi \<lparr>a_digits = [5], sign = minus_sign\<rparr>)
   \<and> (\<exists>r. Rational_int 7 = Some r \<and> I3 r)
   \<and> (\<exists>r. plus_assign_r
              \<lparr>numerator = \<lparr>a_digits = [1], sign = plus_sign\<rparr>,
               denominator = \<lparr>a_digits = [3], sign = plus_sign\<rparr>, r_sign = minus_sign\<rparr>
              \<lparr>numerator = \<lparr>a_digits = [1], sign = plus_sign\<rparr>,
               denominator = \<lparr>a_digits = [6], sign = plus_sign\<rparr>, r_sign = plus_sign\<rparr>
            = Some r \<and> I3 r)
   \<and> (\<exists>r. divide_assign_r
              \<lparr>numerator = \<lparr>a_digits = [1], sign = plus_sign\<rparr>,
               denominator = \<lparr>a_digits = [3], sign = plus_sign\<rparr>, r_sign = minus_sign\<rparr>
              \<lparr>numerator = \<lparr>a_digits = [1], sign = plus_sign\<rparr>,
               denominator = \<lparr>a_digits = [6], sign = plus_sign\<rparr>, r_sign = plus_sign\<rparr>
            = Some r \<and> I3 r)
   \<and> (\<exists>r. divide_assign_r_self
              \<lparr>numerator = \<lparr>a_digits = [1], sign = plus_sign\<rparr>,
               denominator = \<lparr>a_digits = [3], sign = plus_sign\<rparr>, r_sign = minus_sign\<rparr>
            = Some r \<and> I3 r)
   \<and> plus_assign_r \<lparr>numerator = \<lparr>a_digits = [1], sign = plus_sign\<rparr>,
                       denominator = \<lparr>a_digits = [3], sign = plus_sign\<rparr>, r_sign = plus_sign\<rparr>
                     \<lparr>numerator = \<lparr>a_digits = [1], sign = plus_sign\<rparr>,
                       denominator = \<lparr>a_digits = [6], sign = plus_sign\<rparr>, r_sign = plus_sign\<rparr>
       = Some \<lparr>numerator = \<lparr>a_digits = [1], sign = plus_sign\<rparr>,
               denominator = \<lparr>a_digits = [2], sign = plus_sign\<rparr>, r_sign = plus_sign\<rparr>
   \<and> plus_assign_r_self \<lparr>numerator = \<lparr>a_digits = [1], sign = plus_sign\<rparr>,
                            denominator = \<lparr>a_digits = [2], sign = plus_sign\<rparr>,
                            r_sign = plus_sign\<rparr>
       = Some \<lparr>numerator = \<lparr>a_digits = [3], sign = plus_sign\<rparr>,
               denominator = \<lparr>a_digits = [2], sign = plus_sign\<rparr>, r_sign = plus_sign\<rparr>
   \<and> minus_assign_r_self \<lparr>numerator = \<lparr>a_digits = [1], sign = plus_sign\<rparr>,
                             denominator = \<lparr>a_digits = [2], sign = plus_sign\<rparr>,
                             r_sign = plus_sign\<rparr>
       = Some \<lparr>numerator = \<lparr>a_digits = [1], sign = plus_sign\<rparr>,
               denominator = \<lparr>a_digits = [2], sign = plus_sign\<rparr>, r_sign = minus_sign\<rparr>
   \<and> divide_assign_r_self \<lparr>numerator = \<lparr>a_digits = [1], sign = plus_sign\<rparr>,
                              denominator = \<lparr>a_digits = [2], sign = plus_sign\<rparr>,
                              r_sign = plus_sign\<rparr>
       = Some \<lparr>numerator = \<lparr>a_digits = [1], sign = plus_sign\<rparr>,
               denominator = \<lparr>a_digits = [2], sign = plus_sign\<rparr>, r_sign = plus_sign\<rparr>"
proof -
  let ?a = "\<lparr>numerator = \<lparr>a_digits = [1], sign = plus_sign\<rparr>,
             denominator = \<lparr>a_digits = [3], sign = plus_sign\<rparr>, r_sign = minus_sign\<rparr>"
  let ?b = "\<lparr>numerator = \<lparr>a_digits = [1], sign = plus_sign\<rparr>,
             denominator = \<lparr>a_digits = [6], sign = plus_sign\<rparr>, r_sign = plus_sign\<rparr>"
  let ?n = "\<lparr>a_digits = [5], sign = minus_sign\<rparr>"
  have a: "I3 ?a"
    by (simp add: I3_def canonical_def digits_ok_def in_range_def is_zero_def value_of_def)
  have b: "I3 ?b"
    by (simp add: I3_def canonical_def digits_ok_def in_range_def is_zero_def value_of_def)
  have ga: "groups_le 72305 ?a" and gb: "groups_le 72305 ?b"
    by (simp_all add: groups_le_def)
  have n: "canonical ?n"
    by (simp add: canonical_def digits_ok_def in_range_def is_zero_def)
  have z: "\<not> is_zero (numerator ?b)" "\<not> is_zero (numerator ?a)"
    by (simp_all add: is_zero_def)
  have x: "sint (7 :: 32 word) \<noteq> - (2 ^ 31)"
    by simp
  have "I3 ?a \<and> I3 ?b \<and> groups_le 72305 ?a \<and> groups_le 72305 ?b \<and> canonical ?n
        \<and> I3 (Rational_bi ?n) \<and> (\<exists>r. Rational_int 7 = Some r \<and> I3 r)
        \<and> (\<exists>r. plus_assign_r ?a ?b = Some r \<and> I3 r)
        \<and> (\<exists>r. divide_assign_r ?a ?b = Some r \<and> I3 r)
        \<and> (\<exists>r. divide_assign_r_self ?a = Some r \<and> I3 r)"
    using rational_operations_keep_I3 [OF a b ga gb n, of 7] a b ga gb n z x by blast
  then show ?thesis
    using plus_assign_r_third_sixth plus_assign_r_self_half minus_assign_r_self_half
      divide_assign_r_self_half
    by (simp only: simp_thms)
qed

theorem rational_division_by_zero_counterexample:
  "divide_assign_r (Rational_bi \<lparr>a_digits = [1], sign = plus_sign\<rparr>) Rational_default
   = Some \<lparr>numerator = \<lparr>a_digits = [1], sign = plus_sign\<rparr>,
           denominator = \<lparr>a_digits = [0], sign = plus_sign\<rparr>, r_sign = plus_sign\<rparr>
   \<and> is_zero \<lparr>a_digits = [0], sign = plus_sign\<rparr>
   \<and> divide_assign_r Rational_default Rational_default
   = Some \<lparr>numerator = \<lparr>a_digits = [99, 9], sign = plus_sign\<rparr>,
           denominator = \<lparr>a_digits = [99, 9], sign = plus_sign\<rparr>, r_sign = plus_sign\<rparr>
   \<and> gcd (value_of \<lparr>a_digits = [99, 9], sign = plus_sign\<rparr>)
          (value_of \<lparr>a_digits = [99, 9], sign = plus_sign\<rparr>) = 999"
proof -
  let ?one = "\<lparr>a_digits = [1], sign = plus_sign\<rparr>"
  have i1: "I3 (Rational_bi ?one)"
    by (rule Rational_bi_I3 [OF canonical_one])
  have z: "is_zero (numerator Rational_default)"
    unfolding Rational_default_def zero_eq by (simp add: is_zero_def)
  have n1: "\<not> is_zero (numerator (Rational_bi ?one))" "r_sign (Rational_bi ?one) = plus_sign"
    by (simp_all add: Rational_bi_def is_zero_def)
  show ?thesis
    using divide_assign_r_by_zero [OF i1 Rational_default_I3 z]
      divide_assign_r_by_zero [OF Rational_default_I3 Rational_default_I3 z] z n1
    by (simp add: is_zero_def value_of_def)
qed


text \<open>
  C6.  For every BigInteger \<open>n\<close> with a well-formed digit vector, the Rational made
  from \<open>n\<close> rendered with precision 0 is the text of \<open>n\<close> followed by a decimal point:
  \<^verbatim>\<open>Rational(n).asDecimal(0) == n.toString() + "."\<close>.  The point is appended for every
  precision, so the rendering never equals \<^verbatim>\<open>n.toString()\<close> itself.
\<close>

theorem asDecimal_appends_point:
  assumes "digits_ok (a_digits n)"
  shows "\<exists>s. toString n = Some s \<and> asDecimal (Rational_bi n) 0 = Some (s @ ''.'')
             \<and> asDecimal (Rational_bi n) 0 \<noteq> toString n"
  using asDecimal_zero_precision [OF assms] by auto

theorem asDecimal_appends_point_witness:
  "digits_ok (a_digits \<lparr>a_digits = [34, 12], sign = minus_sign\<rparr>)
   \<and> toString \<lparr>a_digits = [34, 12], sign = minus_sign\<rparr> = Some ''-1234''
   \<and> asDecimal (Rational_bi \<lparr>a_digits = [34, 12], sign = minus_sign\<rparr>) 0 = Some ''-1234.''"
proof -
  have d: "digits_ok (a_digits \<lparr>a_digits = [34, 12], sign = minus_sign\<rparr>)"
    by (simp add: digits_ok_def in_range_def)
  have t: "toString \<lparr>a_digits = [34, 12], sign = minus_sign\<rparr> = Some ''-1234''"
    by code_simp
  show ?thesis
    using asDecimal_appends_point [OF d] d t by auto
qed

theorem asDecimal_counterexample:
  "asDecimal (Rational_bi \<lparr>a_digits = [5], sign = plus_sign\<rparr>) 0 = Some ''5.''
   \<and> toString \<lparr>a_digits = [5], sign = plus_sign\<rparr> = Some ''5''"
proof -
  have d: "digits_ok (a_digits \<lparr>a_digits = [5], sign = plus_sign\<rparr>)"
    by (simp add: digits_ok_def in_range_def)
  have t: "toString \<lparr>a_digits = [5], sign = plus_sign\<rparr> = Some ''5''"
    by code_simp
  show ?thesis
    using asDecimal_zero_precision [OF d] t by auto
qed

end
